theory Spec2Isabelle
  imports Main
begin

section \<open>The OpenTelemetry middleware (extra/treemuxotel/treemuxotel.go)\<close>

subsection \<open>Data\<close>

text \<open>
  Go strings are byte sequences; \<^typ>\<open>string\<close> is a list of 8-bit characters.
  \<open>config\<close> is the struct of the same name.
\<close>

record config =
  clientIP :: bool

text \<open>
  \<open>type Option func(c *config)\<close>. An option mutates the config it is handed; the model
  returns the updated config. A func value may be \<open>nil\<close> (\<open>None\<close>), and calling it panics.
\<close>

type_synonym Option = "(config \<Rightarrow> config) option"

datatype runtime_panic = NilFuncCall

text \<open>\<open>treemux.Param\<close>: a name and a value.\<close>

record Param =
  Name :: string
  Value :: string

text \<open>
  \<open>label.KeyValue\<close> of the OpenTelemetry API. Every attribute this file builds is made by
  \<open>Key.String\<close> or \<open>label.String\<close>, so the value is a string.
\<close>

record KeyValue =
  Key :: string
  StringValue :: string

definition label_String :: "string \<Rightarrow> string \<Rightarrow> KeyValue" where
  "label_String k v = \<lparr>Key = k, StringValue = v\<rparr>"

definition HTTPRouteKey :: string where
  "HTTPRouteKey = ''http.route''"

definition HTTPClientIPKey :: string where
  "HTTPClientIPKey = ''http.client_ip''"

text \<open>
  \<open>trace.Span\<close> is an interface; the middleware uses \<open>IsRecording\<close> and \<open>SetAttributes\<close>
  only. The model of a span is the recording flag and the log of the attributes handed to
  \<open>SetAttributes\<close>, in call order. The span of a context that carries none is the no-op
  span, which is not recording.
\<close>

record Span =
  IsRecording :: bool
  Attributes :: "KeyValue list"

definition SetAttributes :: "Span \<Rightarrow> KeyValue list \<Rightarrow> Span" where
  "SetAttributes sp kvs = sp\<lparr>Attributes := Attributes sp @ kvs\<rparr>"

text \<open>
  \<open>treemux.Request\<close> embeds \<open>*http.Request\<close> and adds the route and the parameters.
  \<open>http.Header\<close> is \<open>map[string][]string\<close>; \<open>Route\<close> is what \<open>req.Route()\<close> returns.
\<close>

record Request =
  Header :: "string \<rightharpoonup> string list"
  RemoteAddr :: string
  Route :: string
  Params :: "Param list"

text \<open>
  The mutable world a handler runs in: the span that \<open>trace.SpanFromContext(req.Context())\<close>
  yields, and everything else (\<open>rest\<close>: the response writer's buffer, the handler's own
  state). A handler takes the response writer handle and the request, and returns its
  outcome \<open>'r\<close> (the \<open>error\<close> value, \<open>nil\<close> included; a panic is an outcome too) with the new
  world.
\<close>

record 's World =
  span :: Span
  rest :: 's

type_synonym ('w, 's, 'r) HandlerFunc = "'w \<Rightarrow> Request \<Rightarrow> 's World \<Rightarrow> 'r \<times> 's World"

subsection \<open>The standard library functions the file calls\<close>

text \<open>
  \<open>http.Header.Get\<close>: the first value stored under the canonical form of the key, or the
  empty string. \<open>X-Forwarded-For\<close> is its own canonical form, and the header map is keyed by
  canonical keys.
\<close>

definition Header_Get :: "(string \<rightharpoonup> string list) \<Rightarrow> string \<Rightarrow> string" where
  "Header_Get h key = (case h key of None \<Rightarrow> [] | Some [] \<Rightarrow> [] | Some (v # _) \<Rightarrow> v)"

text \<open>\<open>strings.IndexByte\<close> and \<open>strings.LastIndexByte\<close>; \<open>None\<close> is Go's \<open>-1\<close>.\<close>

fun IndexByte :: "string \<Rightarrow> char \<Rightarrow> nat option" where
  "IndexByte [] c = None"
| "IndexByte (x # xs) c =
     (if x = c then Some 0 else (case IndexByte xs c of None \<Rightarrow> None | Some i \<Rightarrow> Some (Suc i)))"

fun LastIndexByte :: "string \<Rightarrow> char \<Rightarrow> nat option" where
  "LastIndexByte [] c = None"
| "LastIndexByte (x # xs) c =
     (case LastIndexByte xs c of
        Some i \<Rightarrow> Some (Suc i)
      | None \<Rightarrow> (if x = c then Some 0 else None))"

text \<open>\<open>net.AddrError\<close> and \<open>net.SplitHostPort\<close>, which returns \<open>(host, port, err)\<close>.\<close>

record AddrError =
  Err :: string
  Addr :: string

definition addrErr :: "string \<Rightarrow> string \<Rightarrow> string \<times> string \<times> AddrError option" where
  "addrErr addr why = ([], [], Some \<lparr>Err = why, Addr = addr\<rparr>)"

definition missingPort :: string where
  "missingPort = ''missing port in address''"

definition tooManyColons :: string where
  "tooManyColons = ''too many colons in address''"

text \<open>The tail of \<open>SplitHostPort\<close>: the two bracket checks, then the port after the colon.\<close>

definition SplitHostPort_tail ::
  "string \<Rightarrow> nat \<Rightarrow> string \<Rightarrow> nat \<Rightarrow> nat \<Rightarrow> string \<times> string \<times> AddrError option" where
  "SplitHostPort_tail hostport i host j k =
     (if IndexByte (drop j hostport) CHR ''['' \<noteq> None
        then addrErr hostport ''unexpected '[' in address''
      else if IndexByte (drop k hostport) CHR '']'' \<noteq> None
        then addrErr hostport ''unexpected ']' in address''
      else (host, drop (Suc i) hostport, None))"

definition SplitHostPort :: "string \<Rightarrow> string \<times> string \<times> AddrError option" where
  "SplitHostPort hostport =
     (case LastIndexByte hostport CHR '':'' of
        None \<Rightarrow> addrErr hostport missingPort
      | Some i \<Rightarrow>
          (if hd hostport = CHR ''[''
           then (case IndexByte hostport CHR '']'' of
                   None \<Rightarrow> addrErr hostport ''missing ']' in address''
                 | Some e \<Rightarrow>
                     (if Suc e = length hostport then addrErr hostport missingPort
                      else if Suc e = i
                        then SplitHostPort_tail hostport i (take (e - 1) (drop 1 hostport)) 1 (Suc e)
                      else if hostport ! Suc e = CHR '':'' then addrErr hostport tooManyColons
                      else addrErr hostport missingPort))
           else (let host = take i hostport in
                 if IndexByte host CHR '':'' \<noteq> None then addrErr hostport tooManyColons
                 else SplitHostPort_tail hostport i host 0 0)))"

subsection \<open>The functions of the file\<close>

definition WithClientIP :: "bool \<Rightarrow> Option" where
  "WithClientIP on = Some (\<lambda>c. c\<lparr>clientIP := on\<rparr>)"

text \<open>\<open>remoteAddr\<close>: the forwarded header if it is not empty, else the host of \<open>RemoteAddr\<close>;
  the port and the error of \<open>SplitHostPort\<close> are dropped.\<close>

definition remoteAddr :: "Request \<Rightarrow> string" where
  "remoteAddr req =
     (let forwarded = Header_Get (Header req) ''X-Forwarded-For'' in
      if forwarded \<noteq> [] then forwarded
      else (case SplitHostPort (RemoteAddr req) of (host, _, _) \<Rightarrow> host))"

text \<open>The body of the loop over \<open>req.Params\<close>: one \<open>append\<close>.\<close>

definition append_param :: "KeyValue list \<Rightarrow> Param \<Rightarrow> KeyValue list" where
  "append_param attrs param =
     (let name = Name param;
          name = (if name = [] then ''*'' else name)
      in attrs @ [label_String (''http.route.param.'' @ name) (Value param)])"

text \<open>\<open>(c *config).Middleware\<close>: the handler it returns, applied to \<open>w\<close>, \<open>req\<close> and the world.\<close>

definition Middleware ::
  "config \<Rightarrow> ('w, 's, 'r) HandlerFunc \<Rightarrow> ('w, 's, 'r) HandlerFunc" where
  "Middleware c next w req s =
     (if \<not> IsRecording (span s) then next w req s
      else
        (let attrs = [];
             attrs = attrs @ [label_String HTTPRouteKey (Route req)];
             attrs = (if clientIP c
                      then attrs @ [label_String HTTPClientIPKey (remoteAddr req)]
                      else attrs);
             attrs = foldl append_param attrs (Params req);
             s = s\<lparr>span := SetAttributes (span s) attrs\<rparr>
         in next w req s))"

text \<open>The loop of \<open>NewMiddleware\<close> over its options; calling a \<open>nil\<close> option panics.\<close>

fun apply_opts :: "Option list \<Rightarrow> config \<Rightarrow> runtime_panic + config" where
  "apply_opts [] c = Inr c"
| "apply_opts (opt # opts) c =
     (case opt of None \<Rightarrow> Inl NilFuncCall | Some f \<Rightarrow> apply_opts opts (f c))"

definition NewMiddleware ::
  "Option list \<Rightarrow> runtime_panic + (('w, 's, 'r) HandlerFunc \<Rightarrow> ('w, 's, 'r) HandlerFunc)" where
  "NewMiddleware opts =
     (case apply_opts opts \<lparr>clientIP = True\<rparr> of
        Inl p \<Rightarrow> Inl p
      | Inr c \<Rightarrow> Inr (Middleware c))"

section \<open>The routing tree, matcher and path codec\<close>

text \<open>
  The router itself (the tree, its insertion, the lookup and the path codec of package
  \<open>treemux\<close>) is not among the source files; only its README and the middleware above are.
  The definitions of this section are therefore modelled from the specification, sections 3,
  4 and 8, and from the routing rules of the README. Clean-path normalisation, the redirect
  resolver and the dispatch policy are not modelled: no property below is about them.
\<close>

subsection \<open>Patterns\<close>

text \<open>
  Modelled from the spec: the decomposition of a pattern, which is missing from the sources.
  A pattern is "decomposed into an ordered sequence of segments, each tagged static,
  wildcard, or catchall". A static segment carries its literal bytes (the slashes between
  path components included), a wildcard or catch-all segment its declared name.
\<close>

datatype segment = Static string | Wildcard string | CatchAll string

text \<open>
  Modelled from the spec: the registration-time errors of the missing insertion (section 7):
  wildcards of one node declared under different names, a second catch-all at a node, a
  catch-all that is not the last segment, and a duplicate route.
\<close>

datatype insert_error =
  AmbiguousWildcardName | SecondCatchAll | CatchAllNotLast | DuplicateRoute

text \<open>
  Modelled from the spec: a literal byte of the missing pattern scanner is added to the
  static segment that follows it, or starts a new static segment.
\<close>

definition pushStatic :: "char \<Rightarrow> segment list \<Rightarrow> segment list" where
  "pushStatic c segs =
     (case segs of Static s # segs' \<Rightarrow> Static (c # s) # segs' | _ \<Rightarrow> Static [c] # segs)"

text \<open>
  Modelled from the spec: the missing pattern scanner. \<open>start\<close> says that the scanner is
  at the start of a path component (the start of the pattern, or just after a slash). There
  a \<open>:\<close> opens a wildcard and a \<open>*\<close> a catch-all, whose names run to the next slash, and a
  catch-all must end the pattern; a backslash (byte \<open>0x5C\<close>) before \<open>:\<close>, \<open>*\<close> or a backslash
  makes that byte literal. "These escapes are recognized only at the start of a segment":
  anywhere else every byte is literal.
\<close>

function segments :: "bool \<Rightarrow> string \<Rightarrow> insert_error + segment list" where
  "segments start [] = Inr []"
| "segments start (c # cs) =
     (if start \<and> c = CHR '':'' then
        (case segments False (dropWhile (\<lambda>x. x \<noteq> CHR ''/'') cs) of
           Inl e \<Rightarrow> Inl e
         | Inr segs \<Rightarrow> Inr (Wildcard (takeWhile (\<lambda>x. x \<noteq> CHR ''/'') cs) # segs))
      else if start \<and> c = CHR ''*'' then
        (if dropWhile (\<lambda>x. x \<noteq> CHR ''/'') cs \<noteq> [] then Inl CatchAllNotLast
         else Inr [CatchAll (takeWhile (\<lambda>x. x \<noteq> CHR ''/'') cs)])
      else if start \<and> c = CHR 0x5C \<and> cs \<noteq> [] \<and> hd cs \<in> {CHR '':'', CHR ''*'', CHR 0x5C} then
        (case segments False (tl cs) of
           Inl e \<Rightarrow> Inl e
         | Inr segs \<Rightarrow> Inr (pushStatic (hd cs) segs))
      else
        (case segments (c = CHR ''/'') cs of
           Inl e \<Rightarrow> Inl e
         | Inr segs \<Rightarrow> Inr (pushStatic c segs)))"
  by pat_completeness auto
termination
  by (relation "measure (\<lambda>(start, p). length p)")
     (auto simp: length_dropWhile_le less_Suc_eq_le)

text \<open>
  Modelled from the spec: the trailing slash of a pattern, handled by the missing
  registration code. "A pattern ending with an unescaped trailing \<open>/\<close> sets that node's
  trailing-slash flag", and patterns that differ in the trailing slash only reach the same
  node: the slash is taken off before the pattern is decomposed. The pattern \<open>/\<close> is the
  root path and keeps its slash.
\<close>

definition endsWithSlash :: "string \<Rightarrow> bool" where
  "endsWithSlash pattern = (1 < length pattern \<and> last pattern = CHR ''/'')"

text \<open>
  Modelled from the spec: the pattern as the missing registration code walks it, without
  the trailing slash that only sets the flag.
\<close>

definition stripSlash :: "string \<Rightarrow> string" where
  "stripSlash pattern = (if endsWithSlash pattern then butlast pattern else pattern)"

text \<open>
  Modelled from the spec: the names a pattern declares, "left-to-right" in the "occurrence
  of wildcards/catch-alls in the matched pattern"; the missing matcher binds the captured
  values to them in this order.
\<close>

fun wildcardNames :: "segment list \<Rightarrow> string list" where
  "wildcardNames [] = []"
| "wildcardNames (Static s # segs) = wildcardNames segs"
| "wildcardNames (Wildcard nm # segs) = nm # wildcardNames segs"
| "wildcardNames (CatchAll nm # segs) = nm # wildcardNames segs"

subsection \<open>Nodes and insertion\<close>

text \<open>
  Modelled from the spec: the missing node type (section 3). A node has "a static path
  fragment it consumes", "an ordered set of static children keyed by first differing
  byte", "at most one wildcard child", "at most one catch-all child" (with its declared
  name), "a per-HTTP-method table" from method name to the route's entry \<open>'h\<close> (handler,
  middleware chain and route name), and the trailing-slash flag.

  The wildcard child is shared by all patterns that have a wildcard at that position,
  whatever they call it: section 8 and the README register \<open>/:page\<close> beside
  \<open>/:year/:month\<close> and \<open>/:year/:month/:post\<close> and bind each match to the names of the
  pattern that matched. So the declared names are kept where they are bound, at the node
  that terminates the pattern (\<open>paramNames\<close>, for the routes of that node).
\<close>

datatype 'h node = Node
  (fragment: string)
  (staticChildren: "'h node list")
  (wildcardChild: "'h node option")
  (catchAllChild: "(string \<times> 'h node) option")
  (methodTable: "(string \<times> 'h) list")
  (trailingSlash: bool)
  (paramNames: "string list")

text \<open>Modelled from the spec: a fresh node of the missing insertion, with no child and no route.\<close>

definition emptyNode :: "string \<Rightarrow> 'h node" where
  "emptyNode frag = Node frag [] None None [] False []"

text \<open>
  Modelled from the spec: the static children of the missing tree are "keyed by first
  differing byte"; \<open>findStatic\<close> is the index of the first child whose fragment starts
  with \<open>c\<close>.
\<close>

fun findStatic :: "char \<Rightarrow> 'h node list \<Rightarrow> nat option" where
  "findStatic c [] = None"
| "findStatic c (ch # chs) =
     (if fragment ch \<noteq> [] \<and> hd (fragment ch) = c then Some 0
      else map_option Suc (findStatic c chs))"

text \<open>Modelled from the spec: "the longest common literal prefix" of the missing insertion.\<close>

fun commonPrefix :: "string \<Rightarrow> string \<Rightarrow> string" where
  "commonPrefix (x # xs) (y # ys) = (if x = y then x # commonPrefix xs ys else [])"
| "commonPrefix _ _ = []"

text \<open>
  Modelled from the spec: the size of what is left of a pattern during the walk of the
  missing insertion; the walks below terminate because it decreases.
\<close>

fun segment_size :: "segment \<Rightarrow> nat" where
  "segment_size (Static s) = Suc (length s)"
| "segment_size _ = 1"

text \<open>
  Modelled from the spec: the walk of the missing \<open>Insert\<close> (section 4.1). It consumes the
  longest common prefix with a static child's fragment; "if the remaining pattern diverges
  mid-fragment" it splits the node ("the existing node's suffix becomes a new child");
  without a child for the next byte it creates one. A wildcard segment attaches or reuses
  the wildcard child; a catch-all segment must be the last one and attaches the catch-all
  child, and a catch-all of another name at the same node is an error. \<open>f\<close> is what is
  done to the node that terminates the pattern.
\<close>

function addPath ::
  "segment list \<Rightarrow> ('h node \<Rightarrow> insert_error + 'h node) \<Rightarrow> 'h node \<Rightarrow> insert_error + 'h node" where
  "addPath [] f n = f n"
| "addPath (Static [] # segs) f n = addPath segs f n"
| "addPath (Static (c # cs) # segs) f (Node frag sts wc ca ms sl nms) =
     (case findStatic c sts of
        None \<Rightarrow>
          (case addPath segs f (emptyNode (c # cs)) of
             Inl e \<Rightarrow> Inl e
           | Inr ch \<Rightarrow> Inr (Node frag (sts @ [ch]) wc ca ms sl nms))
      | Some i \<Rightarrow>
          (let ch = sts ! i;
               k = length (commonPrefix cs (tl (fragment ch)));
               target =
                 (if Suc k = length (fragment ch) then ch
                  else Node (take (Suc k) (fragment ch))
                         [Node (drop (Suc k) (fragment ch)) (staticChildren ch) (wildcardChild ch)
                            (catchAllChild ch) (methodTable ch) (trailingSlash ch) (paramNames ch)]
                         None None [] False [])
           in case addPath (Static (drop k cs) # segs) f target of
                Inl e \<Rightarrow> Inl e
              | Inr ch' \<Rightarrow> Inr (Node frag (sts[i := ch']) wc ca ms sl nms)))"
| "addPath (Wildcard nm # segs) f (Node frag sts wc ca ms sl nms) =
     (case addPath segs f (case wc of None \<Rightarrow> emptyNode [] | Some ch \<Rightarrow> ch) of
        Inl e \<Rightarrow> Inl e
      | Inr ch' \<Rightarrow> Inr (Node frag sts (Some ch') ca ms sl nms))"
| "addPath (CatchAll nm # segs) f (Node frag sts wc ca ms sl nms) =
     (if segs \<noteq> [] then Inl CatchAllNotLast
      else (case ca of
              None \<Rightarrow>
                (case f (emptyNode []) of
                   Inl e \<Rightarrow> Inl e
                 | Inr ch \<Rightarrow> Inr (Node frag sts wc (Some (nm, ch)) ms sl nms))
            | Some (nm', ch) \<Rightarrow>
                (if nm' \<noteq> nm then Inl SecondCatchAll
                 else (case f ch of
                         Inl e \<Rightarrow> Inl e
                       | Inr ch' \<Rightarrow> Inr (Node frag sts wc (Some (nm, ch')) ms sl nms)))))"
  by pat_completeness auto
termination
  by (relation "measure (\<lambda>(segs, f, n). sum_list (map segment_size segs))") auto

text \<open>
  Modelled from the spec: what the missing \<open>Insert\<close> does at the node that terminates the
  pattern. The rule on wildcards "at the same node with different declared names" is read
  with the route list of section 8, which registers: a pattern that reaches a node which
  has routes under other declared names (as \<open>/:a\<close> after \<open>/:b\<close>) is the "ambiguous binding
  name" error, since a match at that node would have two bindings. Registering a method
  twice is the duplicate-route error. The flag is written by the first registration at the
  node only: "if a later registration for a different method reaches the same node with a
  different slash presence, the flag is NOT overwritten".
\<close>

definition setRoute ::
  "string \<Rightarrow> 'h \<Rightarrow> bool \<Rightarrow> string list \<Rightarrow> 'h node \<Rightarrow> insert_error + 'h node" where
  "setRoute meth handler slash names n =
     (if methodTable n \<noteq> [] \<and> paramNames n \<noteq> names then Inl AmbiguousWildcardName
      else if meth \<in> fst ` set (methodTable n) then Inl DuplicateRoute
      else Inr (Node (fragment n) (staticChildren n) (wildcardChild n) (catchAllChild n)
                  (methodTable n @ [(meth, handler)])
                  (if methodTable n = [] then slash else trailingSlash n)
                  names))"

text \<open>Modelled from the spec: the missing \<open>Insert(method, pattern, handler) -> error\<close>.\<close>

definition Insert :: "string \<Rightarrow> string \<Rightarrow> 'h \<Rightarrow> 'h node \<Rightarrow> insert_error + 'h node" where
  "Insert meth pattern handler root =
     (case segments True (stripSlash pattern) of
        Inl e \<Rightarrow> Inl e
      | Inr segs \<Rightarrow>
          addPath segs (setRoute meth handler (endsWithSlash pattern) (wildcardNames segs)) root)"

text \<open>
  Modelled from the spec: registrations in a given order, as the missing \<open>Add\<close> is called
  during program setup; the first error stops it.
\<close>

fun InsertAll :: "(string \<times> string \<times> 'h) list \<Rightarrow> 'h node \<Rightarrow> insert_error + 'h node" where
  "InsertAll [] t = Inr t"
| "InsertAll ((m, p, h) # rs) t =
     (case Insert m p h t of Inl e \<Rightarrow> Inl e | Inr t' \<Rightarrow> InsertAll rs t')"

text \<open>
  Modelled from the spec: the node of the missing tree that terminates a pattern, found by
  the walk of \<open>addPath\<close> without creating or splitting anything.
\<close>

function nodeAt :: "'h node \<Rightarrow> segment list \<Rightarrow> 'h node option" where
  "nodeAt n [] = Some n"
| "nodeAt n (Static [] # segs) = nodeAt n segs"
| "nodeAt (Node frag sts wc ca ms sl nms) (Static (c # cs) # segs) =
     (case findStatic c sts of
        None \<Rightarrow> None
      | Some i \<Rightarrow>
          (let ch = sts ! i;
               k = length (commonPrefix cs (tl (fragment ch)))
           in if Suc k = length (fragment ch) then nodeAt ch (Static (drop k cs) # segs) else None))"
| "nodeAt (Node frag sts wc ca ms sl nms) (Wildcard nm # segs) =
     (case wc of None \<Rightarrow> None | Some ch \<Rightarrow> nodeAt ch segs)"
| "nodeAt (Node frag sts wc ca ms sl nms) (CatchAll nm # segs) =
     (case ca of
        None \<Rightarrow> None
      | Some (nm', ch) \<Rightarrow> (if nm' = nm \<and> segs = [] then Some ch else None))"
  by pat_completeness auto
termination
  by (relation "measure (\<lambda>(n, segs). sum_list (map segment_size segs))") auto

text \<open>
  Modelled from the spec: the node of the missing tree that terminates a pattern given as
  a string, with or without its trailing slash: the node whose flag a registration of the
  pattern reads or writes. A node whose routes are registered under other declared names
  does not terminate the pattern.
\<close>

definition patternNode :: "'h node \<Rightarrow> string \<Rightarrow> 'h node option" where
  "patternNode root pattern =
     (case segments True (stripSlash pattern) of
        Inl e \<Rightarrow> None
      | Inr segs \<Rightarrow>
          (case nodeAt root segs of
             None \<Rightarrow> None
           | Some x \<Rightarrow>
               (if methodTable x \<noteq> [] \<and> paramNames x \<noteq> wildcardNames segs then None
                else Some x)))"

subsection \<open>Path codec\<close>

text \<open>Modelled from the spec: the value of a hexadecimal digit, for the missing \<open>UnescapeParam\<close>.\<close>

definition hexval :: "char \<Rightarrow> nat option" where
  "hexval c =
     (let n = (of_char c :: nat) in
      if 48 \<le> n \<and> n \<le> 57 then Some (n - 48)
      else if 97 \<le> n \<and> n \<le> 102 then Some (n - 87)
      else if 65 \<le> n \<and> n \<le> 70 then Some (n - 55)
      else None)"

text \<open>
  Modelled from the spec: percent-decoding, for the missing \<open>UnescapeParam\<close>: every \<open>%XY\<close>
  becomes the byte with the hexadecimal value \<open>XY\<close>; \<open>None\<close> when a \<open>%\<close> is not followed by
  two hexadecimal digits.
\<close>

fun percentDecode :: "string \<Rightarrow> string option" where
  "percentDecode [] = Some []"
| "percentDecode (c # cs) =
     (if c = CHR ''%'' then
        (case cs of
           h # l # cs' \<Rightarrow>
             (case (hexval h, hexval l) of
                (Some a, Some b) \<Rightarrow> map_option ((#) (char_of (16 * a + b))) (percentDecode cs')
              | _ \<Rightarrow> None)
         | _ \<Rightarrow> None)
      else map_option ((#) c) (percentDecode cs))"

text \<open>
  Modelled from the spec: the missing \<open>UnescapeParam(rawSegment) -> value\<close>. Parameter values
  "are percent-decoded exactly once". The specification does not say what a malformed escape
  yields; the model keeps the raw segment then.
\<close>

definition UnescapeParam :: "string \<Rightarrow> string" where
  "UnescapeParam rawSegment =
     (case percentDecode rawSegment of Some v \<Rightarrow> v | None \<Rightarrow> rawSegment)"

text \<open>
  Modelled from the spec: the two path sources of the missing configuration (section 4.2 and
  \<open>PathSource\<close> in section 6): "the raw request-line path (preserves encoded \<open>/\<close> as \<open>%2F\<close>
  literally until final per-parameter unescaping) and the already-decoded path".
\<close>

datatype PathSource = RawURI | DecodedPath

text \<open>
  Modelled from the spec: the path the missing router looks up for a request line path, by
  the configured source. The decoded path is the request line path percent-decoded once.
\<close>

definition sourcePath :: "PathSource \<Rightarrow> string \<Rightarrow> string" where
  "sourcePath src rawPath =
     (case src of RawURI \<Rightarrow> rawPath | DecodedPath \<Rightarrow> UnescapeParam rawPath)"

subsection \<open>Matcher\<close>

text \<open>Modelled from the spec: "exact prefix match only", for the missing matcher.\<close>

definition isPrefix :: "string \<Rightarrow> string \<Rightarrow> bool" where
  "isPrefix frag path = (take (length frag) path = frag)"

text \<open>
  Modelled from the spec: the traversal of the missing \<open>Lookup\<close> (section 4.3). A node with
  routes matches the empty remainder. Otherwise the children are tried "in strict priority
  order": the static child keyed by the next byte, whose fragment must be a prefix of the
  remainder; then the wildcard child, "consuming exactly one path segment (up to the next
  \<open>/\<close> or end of path)", which is not empty; then the catch-all child, "consuming the entire
  remainder of the path", "rejected if the remainder is empty". A branch whose subtree does
  not match the rest of the path gives way to the next one. The result is the terminal node
  and the captured values in left-to-right order, unescaped.
\<close>

fun traverse :: "'h node \<Rightarrow> string \<Rightarrow> ('h node \<times> string list) option"
  and tryStatic :: "'h node list \<Rightarrow> string \<Rightarrow> ('h node \<times> string list) option"
where
  "traverse (Node frag sts wc ca ms sl nms) path =
     (if path = [] \<and> ms \<noteq> [] then Some (Node frag sts wc ca ms sl nms, [])
      else
        (case tryStatic sts path of
           Some r \<Rightarrow> Some r
         | None \<Rightarrow>
             (case (case wc of
                      None \<Rightarrow> None
                    | Some ch \<Rightarrow>
                        (let thisToken = takeWhile (\<lambda>x. x \<noteq> CHR ''/'') path;
                             nextToken = dropWhile (\<lambda>x. x \<noteq> CHR ''/'') path
                         in if thisToken = [] then None
                            else (case traverse ch nextToken of
                                    None \<Rightarrow> None
                                  | Some (t, vs) \<Rightarrow> Some (t, UnescapeParam thisToken # vs))))
              of
                Some r \<Rightarrow> Some r
              | None \<Rightarrow>
                  (case ca of
                     None \<Rightarrow> None
                   | Some (nm, ch) \<Rightarrow>
                       (if path = [] \<or> methodTable ch = [] then None
                        else Some (ch, [UnescapeParam path]))))))"
| "tryStatic [] path = None"
| "tryStatic (ch # chs) path =
     (if path \<noteq> [] \<and> fragment ch \<noteq> [] \<and> hd (fragment ch) = hd path
      then (if isPrefix (fragment ch) path
            then traverse ch (drop (length (fragment ch)) path)
            else None)
      else tryStatic chs path)"

text \<open>
  Modelled from the spec: the Params of a match of the missing matcher: the captured values
  bound, in order, to the names the matched pattern declares.
\<close>

definition bindParams :: "string list \<Rightarrow> string list \<Rightarrow> Param list" where
  "bindParams names vals = map (\<lambda>(n, v). \<lparr>Name = n, Value = v\<rparr>) (zip names vals)"

text \<open>
  Modelled from the spec: the match of the missing \<open>Lookup\<close>: the node the traversal ends
  at, with "an ordered parameter list".
\<close>

definition search :: "'h node \<Rightarrow> string \<Rightarrow> ('h node \<times> Param list) option" where
  "search n path =
     (case traverse n path of
        None \<Rightarrow> None
      | Some (t, vs) \<Rightarrow> Some (t, bindParams (paramNames t) vs))"

text \<open>
  Modelled from the spec: a position of the traversal. From a node with a remainder, the
  traversal moves to the static child keyed by the next byte when its fragment is a prefix
  of the remainder, and to the wildcard child, with one more captured value, when no
  static child and subtree matches. \<open>position\<close> follows such moves from the root and gives
  the node reached, the remainder there and the values captured on the way.
\<close>

datatype branch = ViaStatic | ViaWildcard

fun position ::
  "'h node \<Rightarrow> string \<Rightarrow> branch list \<Rightarrow> ('h node \<times> string \<times> string list) option" where
  "position n path [] = Some (n, path, [])"
| "position (Node frag sts wc ca ms sl nms) path (ViaStatic # bs) =
     (if path = [] then None
      else (case findStatic (hd path) sts of
              None \<Rightarrow> None
            | Some i \<Rightarrow>
                (if isPrefix (fragment (sts ! i)) path
                 then position (sts ! i) (drop (length (fragment (sts ! i))) path) bs
                 else None)))"
| "position (Node frag sts wc ca ms sl nms) path (ViaWildcard # bs) =
     (if path = [] \<and> ms \<noteq> [] then None
      else if tryStatic sts path \<noteq> None then None
      else (case wc of
              None \<Rightarrow> None
            | Some ch \<Rightarrow>
                (let thisToken = takeWhile (\<lambda>x. x \<noteq> CHR ''/'') path;
                     nextToken = dropWhile (\<lambda>x. x \<noteq> CHR ''/'') path
                 in if thisToken = [] then None
                    else (case position ch nextToken bs of
                            None \<Rightarrow> None
                          | Some (n', q, vs) \<Rightarrow> Some (n', q, UnescapeParam thisToken # vs)))))"

text \<open>
  Modelled from the spec: the outcomes of the missing \<open>Lookup(method, cleanPath)\<close>:
  the handler with the parameters, "NotFound", or "MethodNotAllowed" with the methods the
  matched node has. "If the requested method is present, return success; if absent but
  other methods exist on that node, return MethodNotAllowed; if no node matched the path at
  all, return NotFound."
\<close>

datatype 'h lookup_result = Found 'h "Param list" | NotFound | MethodNotAllowed "string list"

text \<open>
  Modelled from the spec: the missing \<open>Lookup\<close>: the traversal, then the check of the
  method table of the node it reached.
\<close>

definition Lookup :: "string \<Rightarrow> 'h node \<Rightarrow> string \<Rightarrow> 'h lookup_result" where
  "Lookup meth root cleanPath =
     (case search root cleanPath of
        None \<Rightarrow> NotFound
      | Some (t, ps) \<Rightarrow>
          (case map_of (methodTable t) meth of
             Some h \<Rightarrow> Found h ps
           | None \<Rightarrow> MethodNotAllowed (map fst (methodTable t))))"

section \<open>Properties of the middleware\<close>

subsection \<open>The handler, recording and not recording\<close>

lemma foldl_append_param:
  "foldl append_param acc ps =
     acc @ map (\<lambda>p. label_String (''http.route.param.'' @ (if Name p = [] then ''*'' else Name p)) (Value p)) ps"
  by (induction ps arbitrary: acc) (simp_all add: append_param_def Let_def)

lemma Middleware_recording:
  "IsRecording (span s) \<Longrightarrow>
   Middleware c next w req s =
     next w req (s\<lparr>span := SetAttributes (span s)
        (label_String HTTPRouteKey (Route req) #
         (if clientIP c then [label_String HTTPClientIPKey (remoteAddr req)] else []) @
         map (\<lambda>p. label_String (''http.route.param.'' @ (if Name p = [] then ''*'' else Name p)) (Value p))
           (Params req))\<rparr>)"
  by (simp add: Middleware_def Let_def foldl_append_param)

lemma Middleware_not_recording:
  "\<not> IsRecording (span s) \<Longrightarrow> Middleware c next w req s = next w req s"
  by (simp add: Middleware_def)

lemma apply_opts_WithClientIP:
  "apply_opts (map WithClientIP ons) c = Inr (c\<lparr>clientIP := last (clientIP c # ons)\<rparr>)"
  by (induction ons arbitrary: c) (simp_all add: WithClientIP_def)

subsection \<open>Splitting host and port\<close>

lemma IndexByte_Some: "IndexByte s c = Some i \<Longrightarrow> i < length s \<and> s ! i = c"
  by (induction s arbitrary: i) (auto split: if_splits option.splits)

lemma LastIndexByte_Some: "LastIndexByte s c = Some i \<Longrightarrow> i < length s \<and> s ! i = c"
  by (induction s arbitrary: i) (auto split: if_splits option.splits)

lemma SplitHostPort_tail_cases:
  "SplitHostPort_tail s i host j k = (h, p, e) \<Longrightarrow>
     (e \<noteq> None \<and> h = []) \<or> (e = None \<and> h = host \<and> p = drop (Suc i) s)"
  by (auto simp: SplitHostPort_tail_def addrErr_def split: if_splits)

lemma SplitHostPort_error_host:
  assumes "SplitHostPort s = (h, p, Some e)"
  shows "h = []"
  using assms
  by (auto simp: SplitHostPort_def addrErr_def Let_def
      split: option.splits if_splits dest!: SplitHostPort_tail_cases)

lemma split_at_index: "i < length s \<Longrightarrow> s = take i s @ s ! i # drop (Suc i) s"
  by (simp add: id_take_nth_drop)

lemma bracket_shape:
  assumes "s \<noteq> []" "hd s = a" "e < length s" "s ! e = b" "Suc e < length s" "s ! Suc e = c" "a \<noteq> b"
  shows "s = a # take (e - 1) (drop 1 s) @ b # c # drop (Suc (Suc e)) s"
proof -
  obtain t where s: "s = a # t" using assms by (cases s) auto
  have e0: "e \<noteq> 0"
  proof
    assume "e = 0"
    with assms s show False by simp
  qed
  then obtain e' where e': "e = Suc e'" by (cases e) auto
  have 1: "e' < length t" "t ! e' = b" "Suc e' < length t" "t ! Suc e' = c"
    using assms s e' by simp_all
  have "t = take e' t @ t ! e' # drop (Suc e') t"
    by (rule id_take_nth_drop) (rule 1(1))
  also have "drop (Suc e') t = t ! Suc e' # drop (Suc (Suc e')) t"
    by (rule Cons_nth_drop_Suc [symmetric]) (rule 1(3))
  finally have "t = take e' t @ b # c # drop (Suc (Suc e')) t"
    using 1 by simp
  then show ?thesis using s e' by simp
qed

lemma SplitHostPort_ok_shape:
  assumes "SplitHostPort s = (h, p, None)"
  shows "s = h @ '':'' @ p \<or> s = ''['' @ h @ '']:'' @ p"
proof -
  from assms obtain i where i: "LastIndexByte s CHR '':'' = Some i"
    by (auto simp: SplitHostPort_def addrErr_def split: option.splits)
  then have il: "i < length s" and ic: "s ! i = CHR '':''"
    using LastIndexByte_Some by blast+
  then have ne: "s \<noteq> []" by auto
  show ?thesis
  proof (cases "hd s = CHR ''[''")
    case False
    with assms i have "SplitHostPort_tail s i (take i s) 0 0 = (h, p, None)"
      by (auto simp: SplitHostPort_def addrErr_def Let_def split: if_splits)
    then have "h = take i s" "p = drop (Suc i) s"
      by (auto dest!: SplitHostPort_tail_cases)
    then show ?thesis using split_at_index [OF il] ic by simp
  next
    case True
    with assms i obtain e where e: "IndexByte s CHR '']'' = Some e" "Suc e = i"
      and t: "SplitHostPort_tail s i (take (e - 1) (drop 1 s)) 1 (Suc e) = (h, p, None)"
      by (auto simp: SplitHostPort_def addrErr_def Let_def split: if_splits option.splits)
    from t have hp: "h = take (e - 1) (drop 1 s)" "p = drop (Suc i) s"
      by (auto dest!: SplitHostPort_tail_cases)
    from e have "e < length s" "s ! e = CHR '']''" using IndexByte_Some by blast+
    then have "s = CHR ''['' # take (e - 1) (drop 1 s) @ CHR '']'' # CHR '':'' # drop (Suc (Suc e)) s"
      using bracket_shape [OF ne True, of e "CHR '']''" "CHR '':''"] il ic e by simp
    then show ?thesis using hp e by simp
  qed
qed

subsection \<open>The claims about the middleware\<close>

text \<open>
  C1. When the span is recording, the handler returned by \<open>Middleware\<close> calls \<open>next\<close> on a
  span extended by: the route attribute, the client address if configured, and then exactly
  one attribute per entry of \<open>req.Params\<close>, in the order of \<open>req.Params\<close>, with key
  \<open>http.route.param.\<close> followed by the parameter's name (\<open>*\<close> for the empty name) and with the
  parameter's value unchanged. No attribute before the parameters' has a key that starts
  with \<open>http.route.param.\<close>.
\<close>

theorem Middleware_sets_param_attributes:
  assumes "IsRecording (span s)"
  shows "Middleware c next w req s =
           next w req (s\<lparr>span := (span s)\<lparr>Attributes := Attributes (span s) @
             label_String HTTPRouteKey (Route req) #
             (if clientIP c then [label_String HTTPClientIPKey (remoteAddr req)] else []) @
             map (\<lambda>p. \<lparr>Key = ''http.route.param.'' @ (if Name p = [] then ''*'' else Name p),
                        StringValue = Value p\<rparr>) (Params req)\<rparr>\<rparr>)
         \<and> filter (\<lambda>kv. take 17 (Key kv) = ''http.route.param.'')
             (label_String HTTPRouteKey (Route req) #
              (if clientIP c then [label_String HTTPClientIPKey (remoteAddr req)] else [])) = []"
  using assms
  by (simp add: Middleware_recording SetAttributes_def label_String_def HTTPRouteKey_def HTTPClientIPKey_def)

theorem Middleware_sets_param_attributes_witness:
  "Middleware \<lparr>clientIP = False\<rparr> (\<lambda>w req s. (Attributes (span s), s)) ()
     \<lparr>Header = Map.empty, RemoteAddr = ''10.0.0.1:80'', Route = ''/f/:id/*'',
      Params = [\<lparr>Name = ''id'', Value = ''7''\<rparr>, \<lparr>Name = [], Value = ''a/b''\<rparr>]\<rparr>
     \<lparr>span = \<lparr>IsRecording = True, Attributes = []\<rparr>, rest = ()\<rparr>
   = ([\<lparr>Key = ''http.route'', StringValue = ''/f/:id/*''\<rparr>,
       \<lparr>Key = ''http.route.param.id'', StringValue = ''7''\<rparr>,
       \<lparr>Key = ''http.route.param.*'', StringValue = ''a/b''\<rparr>],
      \<lparr>span = \<lparr>IsRecording = True, Attributes =
         [\<lparr>Key = ''http.route'', StringValue = ''/f/:id/*''\<rparr>,
          \<lparr>Key = ''http.route.param.id'', StringValue = ''7''\<rparr>,
          \<lparr>Key = ''http.route.param.*'', StringValue = ''a/b''\<rparr>]\<rparr>, rest = ()\<rparr>)"
  using Middleware_sets_param_attributes
    [of "\<lparr>span = \<lparr>IsRecording = True, Attributes = []\<rparr>, rest = ()\<rparr>" "\<lparr>clientIP = False\<rparr>"
        "\<lambda>w req s. (Attributes (span s), s)" "()"
        "\<lparr>Header = Map.empty, RemoteAddr = ''10.0.0.1:80'', Route = ''/f/:id/*'',
          Params = [\<lparr>Name = ''id'', Value = ''7''\<rparr>, \<lparr>Name = [], Value = ''a/b''\<rparr>]\<rparr>"]
  by (simp add: label_String_def HTTPRouteKey_def)

text \<open>
  C2. For every request and world there is one attribute list \<open>A\<close> such that, whatever the
  inner handler \<open>next\<close> is, the wrapped handler returns exactly what \<open>next w req\<close> returns
  (outcome and final world) when it runs on the world whose span has \<open>A\<close> appended: the
  middleware calls \<open>next\<close> once, last, and hands its result back untouched, recording or not.
\<close>

theorem Middleware_returns_what_next_returns:
  "\<exists>A. \<forall>next :: ('w, 's, 'r) HandlerFunc.
     Middleware c next w req s =
       next w req (s\<lparr>span := (span s)\<lparr>Attributes := Attributes (span s) @ A\<rparr>\<rparr>)"
proof (cases "IsRecording (span s)")
  case True
  then show ?thesis
    by (intro exI allI) (simp add: Middleware_recording SetAttributes_def)
next
  case False
  then have "\<forall>next :: ('w, 's, 'r) HandlerFunc. Middleware c next w req s =
       next w req (s\<lparr>span := (span s)\<lparr>Attributes := Attributes (span s) @ []\<rparr>\<rparr>)"
    by (simp add: Middleware_not_recording)
  then show ?thesis by blast
qed

text \<open>
  C8. When the span is not recording, the wrapped handler is \<open>next\<close> on the unchanged world:
  no attribute is set and the span is as it was when \<open>next\<close> starts.
\<close>

theorem Middleware_not_recording_calls_next:
  "\<not> IsRecording (span s) \<Longrightarrow> Middleware c next w req s = next w req s"
  by (simp add: Middleware_def)

theorem Middleware_not_recording_calls_next_witness:
  "Middleware \<lparr>clientIP = True\<rparr> (\<lambda>w req s. (Attributes (span s), s)) ()
     \<lparr>Header = Map.empty, RemoteAddr = ''10.0.0.1:80'', Route = ''/f/:id'',
      Params = [\<lparr>Name = ''id'', Value = ''7''\<rparr>]\<rparr>
     \<lparr>span = \<lparr>IsRecording = False, Attributes = []\<rparr>, rest = ()\<rparr>
   = ([], \<lparr>span = \<lparr>IsRecording = False, Attributes = []\<rparr>, rest = ()\<rparr>)"
  using Middleware_not_recording_calls_next
    [of "\<lparr>span = \<lparr>IsRecording = False, Attributes = []\<rparr>, rest = ()\<rparr>" "\<lparr>clientIP = True\<rparr>"
        "\<lambda>w req s. (Attributes (span s), s)" "()"
        "\<lparr>Header = Map.empty, RemoteAddr = ''10.0.0.1:80'', Route = ''/f/:id'',
          Params = [\<lparr>Name = ''id'', Value = ''7''\<rparr>]\<rparr>"]
  by simp

text \<open>
  C9. \<open>NewMiddleware\<close> over options built by \<open>WithClientIP\<close> yields the middleware of the
  config whose \<open>clientIP\<close> is the last option's value, and \<open>True\<close> when there is no option.
  For a recording span the attributes set contain one with key \<open>http.client_ip\<close> if and only
  if \<open>clientIP\<close> is true, and then it is the one holding \<open>remoteAddr\<close> of the request.
\<close>

theorem NewMiddleware_last_WithClientIP_wins:
  "(NewMiddleware (map WithClientIP ons) :: runtime_panic + (('w, 's, 'r) HandlerFunc \<Rightarrow> ('w, 's, 'r) HandlerFunc))
      = Inr (Middleware \<lparr>clientIP = last (True # ons)\<rparr>)
   \<and> (NewMiddleware [] :: runtime_panic + (('w, 's, 'r) HandlerFunc \<Rightarrow> ('w, 's, 'r) HandlerFunc))
      = Inr (Middleware \<lparr>clientIP = True\<rparr>)
   \<and> (IsRecording (span s) \<longrightarrow>
        (\<exists>A. (\<forall>next :: ('w, 's, 'r) HandlerFunc.
                Middleware c next w req s = next w req (s\<lparr>span := SetAttributes (span s) A\<rparr>))
           \<and> ((\<exists>kv \<in> set A. Key kv = HTTPClientIPKey) = clientIP c)
           \<and> (clientIP c \<longrightarrow> label_String HTTPClientIPKey (remoteAddr req) \<in> set A)))"
proof (intro conjI impI)
  show "(NewMiddleware (map WithClientIP ons) :: runtime_panic + (('w, 's, 'r) HandlerFunc \<Rightarrow> ('w, 's, 'r) HandlerFunc))
      = Inr (Middleware \<lparr>clientIP = last (True # ons)\<rparr>)"
    by (simp add: NewMiddleware_def apply_opts_WithClientIP)
  show "(NewMiddleware [] :: runtime_panic + (('w, 's, 'r) HandlerFunc \<Rightarrow> ('w, 's, 'r) HandlerFunc))
      = Inr (Middleware \<lparr>clientIP = True\<rparr>)"
    by (simp add: NewMiddleware_def)
next
  assume rec: "IsRecording (span s)"
  let ?A = "label_String HTTPRouteKey (Route req) #
         (if clientIP c then [label_String HTTPClientIPKey (remoteAddr req)] else []) @
         map (\<lambda>p. label_String (''http.route.param.'' @ (if Name p = [] then ''*'' else Name p)) (Value p))
           (Params req)"
  have 1: "\<forall>next :: ('w, 's, 'r) HandlerFunc.
          Middleware c next w req s = next w req (s\<lparr>span := SetAttributes (span s) ?A\<rparr>)"
    using rec by (simp add: Middleware_recording)
  have 2: "(\<exists>kv \<in> set ?A. Key kv = HTTPClientIPKey) = clientIP c"
    by (auto simp: label_String_def HTTPRouteKey_def HTTPClientIPKey_def)
  have 3: "clientIP c \<longrightarrow> label_String HTTPClientIPKey (remoteAddr req) \<in> set ?A"
    by simp
  from 1 2 3 show "\<exists>A. (\<forall>next :: ('w, 's, 'r) HandlerFunc.
                Middleware c next w req s = next w req (s\<lparr>span := SetAttributes (span s) A\<rparr>))
           \<and> ((\<exists>kv \<in> set A. Key kv = HTTPClientIPKey) = clientIP c)
           \<and> (clientIP c \<longrightarrow> label_String HTTPClientIPKey (remoteAddr req) \<in> set A)"
    by blast
qed

theorem NewMiddleware_last_WithClientIP_wins_witness:
  "(NewMiddleware [WithClientIP False, WithClientIP True]
      :: runtime_panic + ((unit, unit, KeyValue list) HandlerFunc \<Rightarrow> (unit, unit, KeyValue list) HandlerFunc))
      = Inr (Middleware \<lparr>clientIP = True\<rparr>)
   \<and> (\<exists>A. (\<forall>next :: (unit, unit, KeyValue list) HandlerFunc.
           Middleware \<lparr>clientIP = False\<rparr> next ()
             \<lparr>Header = Map.empty, RemoteAddr = ''10.0.0.1:80'', Route = ''/'', Params = []\<rparr>
             \<lparr>span = \<lparr>IsRecording = True, Attributes = []\<rparr>, rest = ()\<rparr>
           = next ()
             \<lparr>Header = Map.empty, RemoteAddr = ''10.0.0.1:80'', Route = ''/'', Params = []\<rparr>
             \<lparr>span = \<lparr>IsRecording = True, Attributes = A\<rparr>, rest = ()\<rparr>)
         \<and> \<not> (\<exists>kv \<in> set A. Key kv = HTTPClientIPKey))"
  using NewMiddleware_last_WithClientIP_wins
    [of "[False, True]" "\<lparr>span = \<lparr>IsRecording = True, Attributes = []\<rparr>, rest = ()\<rparr>"
        "\<lparr>clientIP = False\<rparr>" "()"
        "\<lparr>Header = Map.empty, RemoteAddr = ''10.0.0.1:80'', Route = ''/'', Params = []\<rparr>",
     where ?'r = "KeyValue list"]
  by (simp add: SetAttributes_def)

text \<open>
  C10. \<open>remoteAddr\<close> is a total function with no error result. It returns the
  \<open>X-Forwarded-For\<close> value as it is when that is not empty. Otherwise it returns the host
  that \<open>SplitHostPort\<close> finds in \<open>RemoteAddr\<close>, which is then of the form \<open>host:port\<close> or
  \<open>[host]:port\<close>; and when \<open>SplitHostPort\<close> reports an error it returns the empty string.
\<close>

theorem remoteAddr_total:
  "remoteAddr req =
     (if Header_Get (Header req) ''X-Forwarded-For'' \<noteq> []
      then Header_Get (Header req) ''X-Forwarded-For''
      else fst (SplitHostPort (RemoteAddr req)))
   \<and> (Header_Get (Header req) ''X-Forwarded-For'' = [] \<longrightarrow>
        (case SplitHostPort (RemoteAddr req) of
           (host, port, None) \<Rightarrow>
              remoteAddr req = host \<and>
              (RemoteAddr req = host @ '':'' @ port \<or> RemoteAddr req = ''['' @ host @ '']:'' @ port)
         | (host, port, Some e) \<Rightarrow> remoteAddr req = []))"
proof -
  obtain h p e where sp: "SplitHostPort (RemoteAddr req) = (h, p, e)"
    by (cases "SplitHostPort (RemoteAddr req)") auto
  have 1: "remoteAddr req =
     (if Header_Get (Header req) ''X-Forwarded-For'' \<noteq> []
      then Header_Get (Header req) ''X-Forwarded-For''
      else fst (SplitHostPort (RemoteAddr req)))"
    by (simp add: remoteAddr_def Let_def split: prod.splits)
  show ?thesis
  proof (cases e)
    case None
    with sp SplitHostPort_ok_shape [of "RemoteAddr req" h p] 1 show ?thesis by simp
  next
    case (Some a)
    with sp SplitHostPort_error_host [of "RemoteAddr req" h p a] 1 show ?thesis by simp
  qed
qed

theorem remoteAddr_total_witness:
  "remoteAddr \<lparr>Header = Map.empty, RemoteAddr = ''10.0.0.1:80'', Route = [], Params = []\<rparr> = ''10.0.0.1''
   \<and> remoteAddr \<lparr>Header = Map.empty, RemoteAddr = ''10.0.0.1'', Route = [], Params = []\<rparr> = []
   \<and> remoteAddr \<lparr>Header = [''X-Forwarded-For'' \<mapsto> [''1.2.3.4, 5.6.7.8'']], RemoteAddr = ''10.0.0.1:80'',
        Route = [], Params = []\<rparr> = ''1.2.3.4, 5.6.7.8''"
  using remoteAddr_total [of "\<lparr>Header = Map.empty, RemoteAddr = ''10.0.0.1:80'', Route = [], Params = []\<rparr>"]
    remoteAddr_total [of "\<lparr>Header = Map.empty, RemoteAddr = ''10.0.0.1'', Route = [], Params = []\<rparr>"]
    remoteAddr_total [of "\<lparr>Header = [''X-Forwarded-For'' \<mapsto> [''1.2.3.4, 5.6.7.8'']], RemoteAddr = ''10.0.0.1:80'',
        Route = [], Params = []\<rparr>"]
  by (simp add: Header_Get_def SplitHostPort_def SplitHostPort_tail_def addrErr_def missingPort_def Let_def)

section \<open>Properties of the routing tree\<close>

subsection \<open>The matcher binds no empty value\<close>

lemma tryStatic_Nil_path: "tryStatic sts [] = None"
  by (induction sts) simp_all

lemma percentDecode_nonempty: "percentDecode (c # cs) = Some v \<Longrightarrow> v \<noteq> []"
  by (auto split: if_splits list.splits option.splits)

lemma UnescapeParam_nonempty:
  assumes "raw \<noteq> []"
  shows "UnescapeParam raw \<noteq> []"
proof -
  from assms obtain c cs where raw: "raw = c # cs" by (cases raw) auto
  show ?thesis
  proof (cases "percentDecode raw")
    case None
    then show ?thesis using raw by (simp add: UnescapeParam_def)
  next
    case (Some v)
    with raw percentDecode_nonempty [of c cs v] show ?thesis by (simp add: UnescapeParam_def)
  qed
qed

lemma traverse_static:
  "tryStatic sts path = Some r \<Longrightarrow> \<not> (path = [] \<and> ms \<noteq> []) \<Longrightarrow>
     traverse (Node frag sts wc ca ms sl nms) path = Some r"
  by auto

lemma traverse_wildcard:
  "\<not> (path = [] \<and> ms \<noteq> []) \<Longrightarrow> tryStatic sts path = None \<Longrightarrow>
   takeWhile (\<lambda>x. x \<noteq> CHR ''/'') path \<noteq> [] \<Longrightarrow>
   traverse ch (dropWhile (\<lambda>x. x \<noteq> CHR ''/'') path) = Some (t, vs) \<Longrightarrow>
     traverse (Node frag sts (Some ch) ca ms sl nms) path =
       Some (t, UnescapeParam (takeWhile (\<lambda>x. x \<noteq> CHR ''/'') path) # vs)"
  by (auto simp: Let_def)

lemma traverse_cases:
  assumes "traverse (Node frag sts wc ca ms sl nms) path = Some (t, vs)"
  shows "(path = [] \<and> ms \<noteq> [] \<and> t = Node frag sts wc ca ms sl nms \<and> vs = [])
       \<or> (\<not> (path = [] \<and> ms \<noteq> []) \<and> tryStatic sts path = Some (t, vs))
       \<or> (\<not> (path = [] \<and> ms \<noteq> []) \<and> tryStatic sts path = None
            \<and> (\<exists>ch vs'. wc = Some ch \<and> takeWhile (\<lambda>x. x \<noteq> CHR ''/'') path \<noteq> []
                  \<and> traverse ch (dropWhile (\<lambda>x. x \<noteq> CHR ''/'') path) = Some (t, vs')
                  \<and> vs = UnescapeParam (takeWhile (\<lambda>x. x \<noteq> CHR ''/'') path) # vs'))
       \<or> (tryStatic sts path = None \<and> path \<noteq> [] \<and> (\<exists>nm. ca = Some (nm, t))
            \<and> methodTable t \<noteq> [] \<and> vs = [UnescapeParam path])"
proof (cases "path = [] \<and> ms \<noteq> []")
  case True
  with assms show ?thesis by simp
next
  case nt: False
  show ?thesis
  proof (cases "tryStatic sts path")
    case (Some r)
    with assms nt have "r = (t, vs)" using traverse_static [OF Some nt, of frag wc ca sl nms] by simp
    with Some nt show ?thesis by simp
  next
    case None
    show ?thesis
    proof (cases "\<exists>ch t' vs'. wc = Some ch \<and> takeWhile (\<lambda>x. x \<noteq> CHR ''/'') path \<noteq> []
           \<and> traverse ch (dropWhile (\<lambda>x. x \<noteq> CHR ''/'') path) = Some (t', vs')")
      case True
      then obtain ch t' vs' where w: "wc = Some ch" "takeWhile (\<lambda>x. x \<noteq> CHR ''/'') path \<noteq> []"
         "traverse ch (dropWhile (\<lambda>x. x \<noteq> CHR ''/'') path) = Some (t', vs')" by blast
      from traverse_wildcard [OF nt None w(2,3), of frag ca sl nms] assms w(1)
      have "t = t'" "vs = UnescapeParam (takeWhile (\<lambda>x. x \<noteq> CHR ''/'') path) # vs'" by simp_all
      with nt None w show ?thesis by simp
    next
      case False
      have "traverse (Node frag sts wc ca ms sl nms) path =
          (case ca of
             None \<Rightarrow> None
           | Some (nm, ch) \<Rightarrow>
               (if path = [] \<or> methodTable ch = [] then None
                else Some (ch, [UnescapeParam path])))"
      proof (cases wc)
        case wcNone: None
        with nt None show ?thesis by (cases "path = []") (auto split: option.splits)
      next
        case (Some ch)
        with False have "takeWhile (\<lambda>x. x \<noteq> CHR ''/'') path = []
            \<or> traverse ch (dropWhile (\<lambda>x. x \<noteq> CHR ''/'') path) = None"
          by auto
        with nt None Some show ?thesis
          by (cases "path = []") (auto simp: Let_def split: option.splits)
      qed
      with assms None show ?thesis
        by (cases ca) (auto split: if_splits)
    qed
  qed
qed

lemma traverse_values_nonempty:
  "traverse n path = Some (t, vs) \<Longrightarrow> v \<in> set vs \<Longrightarrow> v \<noteq> []"
  "tryStatic sts path = Some (t, vs) \<Longrightarrow> v \<in> set vs \<Longrightarrow> v \<noteq> []"
proof (induction n path and sts path arbitrary: t vs v and t vs v rule: traverse_tryStatic.induct)
  case (1 frag sts wc ca ms sl nms path)
  from traverse_cases [OF "1.prems"(1)] show ?case
  proof (elim disjE conjE exE)
    assume "vs = []"
    with "1.prems"(2) show ?thesis by simp
  next
    assume "\<not> (path = [] \<and> ms \<noteq> [])" "tryStatic sts path = Some (t, vs)"
    from "1.IH"(1) [OF this "1.prems"(2)] show ?thesis .
  next
    fix ch vs'
    assume nt: "\<not> (path = [] \<and> ms \<noteq> [])" and st: "tryStatic sts path = None"
      and w: "wc = Some ch" "takeWhile (\<lambda>x. x \<noteq> CHR ''/'') path \<noteq> []"
        "traverse ch (dropWhile (\<lambda>x. x \<noteq> CHR ''/'') path) = Some (t, vs')"
      and vs: "vs = UnescapeParam (takeWhile (\<lambda>x. x \<noteq> CHR ''/'') path) # vs'"
    show ?thesis
    proof (cases "v \<in> set vs'")
      case True
      from "1.IH"(2) [OF nt st w(1) refl refl w(2) w(3) True] show ?thesis .
    next
      case False
      with vs "1.prems"(2) have "v = UnescapeParam (takeWhile (\<lambda>x. x \<noteq> CHR ''/'') path)" by simp
      with w(2) show ?thesis by (simp add: UnescapeParam_nonempty)
    qed
  next
    assume "path \<noteq> []" "vs = [UnescapeParam path]"
    with "1.prems"(2) show ?thesis by (simp add: UnescapeParam_nonempty)
  qed
next
  case (2 path)
  then show ?case by simp
next
  case (3 ch chs path)
  show ?case
  proof (cases "path \<noteq> [] \<and> fragment ch \<noteq> [] \<and> hd (fragment ch) = hd path")
    case True
    with "3.prems"(1) have p: "isPrefix (fragment ch) path"
      by (cases "isPrefix (fragment ch) path") simp_all
    with True "3.prems"(1) have "traverse ch (drop (length (fragment ch)) path) = Some (t, vs)"
      by simp
    from "3.IH"(1) [OF True p this "3.prems"(2)] show ?thesis .
  next
    case False
    with "3.prems"(1) have "tryStatic chs path = Some (t, vs)" by simp
    from "3.IH"(2) [OF False this "3.prems"(2)] show ?thesis .
  qed
qed

lemma search_values_nonempty:
  assumes "search n path = Some (t, ps)" and "q \<in> set ps"
  shows "Value q \<noteq> []"
proof -
  from assms(1) obtain vs where tr: "traverse n path = Some (t, vs)"
    and ps: "ps = bindParams (paramNames t) vs"
    by (auto simp: search_def split: option.splits)
  from assms(2) ps have "Value q \<in> set vs"
    by (auto simp: bindParams_def dest: set_zip_rightD)
  with tr show ?thesis by (rule traverse_values_nonempty(1))
qed

subsection \<open>Static children and common prefixes\<close>

lemma findStatic_Some:
  "findStatic c sts = Some i \<Longrightarrow>
     i < length sts \<and> fragment (sts ! i) \<noteq> [] \<and> hd (fragment (sts ! i)) = c"
  by (induction sts arbitrary: i) (auto split: if_splits)

lemma findStatic_update:
  "findStatic c sts = Some i \<Longrightarrow> fragment ch' \<noteq> [] \<Longrightarrow> hd (fragment ch') = c \<Longrightarrow>
     findStatic c (sts[i := ch']) = Some i"
  by (induction sts arbitrary: i) (auto split: if_splits)

lemma findStatic_update_other:
  "findStatic c sts = Some j \<Longrightarrow> j \<noteq> i \<Longrightarrow> fragment ch' \<noteq> [] \<Longrightarrow> hd (fragment ch') \<noteq> c \<Longrightarrow>
     findStatic c (sts[i := ch']) = Some j"
proof (induction sts arbitrary: i j)
  case Nil
  then show ?case by simp
next
  case (Cons a sts)
  then show ?case by (cases i) (auto split: if_splits)
qed

lemma findStatic_append_Some:
  "findStatic c sts = Some i \<Longrightarrow> findStatic c (sts @ extra) = Some i"
  by (induction sts arbitrary: i) (auto split: if_splits)

lemma findStatic_append_None:
  "findStatic c sts = None \<Longrightarrow> fragment ch \<noteq> [] \<Longrightarrow> hd (fragment ch) = c \<Longrightarrow>
     findStatic c (sts @ [ch]) = Some (length sts)"
  by (induction sts) (auto split: if_splits)

lemma commonPrefix_length: "length (commonPrefix a b) \<le> length b"
  by (induction a b rule: commonPrefix.induct) simp_all

lemma commonPrefix_take: "commonPrefix a b = take (length (commonPrefix a b)) b"
  by (induction a b rule: commonPrefix.induct) simp_all

lemma commonPrefix_take_left: "commonPrefix a b = take (length (commonPrefix a b)) a"
  by (induction a b rule: commonPrefix.induct) simp_all

lemma commonPrefix_whole: "length (commonPrefix a b) = length b \<Longrightarrow> take (length b) a = b"
  using commonPrefix_take [of a b] commonPrefix_take_left [of a b] by simp

lemma commonPrefix_of_prefix: "take (length b) a = b \<Longrightarrow> commonPrefix a b = b"
  by (induction a b rule: commonPrefix.induct) auto

lemma commonPrefix_idem:
  "commonPrefix a (take (length (commonPrefix a b)) b) = commonPrefix a b"
  by (induction a b rule: commonPrefix.induct) simp_all

lemma tryStatic_findStatic_Some:
  "findStatic c sts = Some i \<Longrightarrow>
     tryStatic sts (c # cs) =
       (if isPrefix (fragment (sts ! i)) (c # cs)
        then traverse (sts ! i) (drop (length (fragment (sts ! i))) (c # cs))
        else None)"
  by (induction sts arbitrary: i) (auto split: if_splits)

subsection \<open>The node an insertion reaches\<close>

lemma nodeAt_static_search:
  "nodeAt n [Static s] = Some x \<Longrightarrow> methodTable x \<noteq> [] \<Longrightarrow> traverse n s = Some (x, [])"
proof (induction s arbitrary: n rule: length_induct)
  case (1 s)
  obtain frag sts wc ca ms sl nms where n: "n = Node frag sts wc ca ms sl nms" by (cases n)
  show ?case
  proof (cases s)
    case Nil
    with "1.prems" n show ?thesis by auto
  next
    case (Cons c cs)
    from "1.prems"(1) n Cons obtain i where i: "findStatic c sts = Some i"
      by (auto split: option.splits)
    define ch where "ch = sts ! i"
    define k where "k = length (commonPrefix cs (tl (fragment ch)))"
    from "1.prems"(1) n Cons i have whole: "Suc k = length (fragment ch)"
      and at: "nodeAt ch [Static (drop k cs)] = Some x"
      by (auto simp: Let_def ch_def k_def split: if_splits)
    from findStatic_Some [OF i] have ne: "fragment ch \<noteq> []" and hd: "hd (fragment ch) = c"
      by (simp_all add: ch_def)
    from whole ne have kl: "k = length (tl (fragment ch))" by (cases "fragment ch") auto
    then have "take (length (tl (fragment ch))) cs = tl (fragment ch)"
      using commonPrefix_whole [of cs "tl (fragment ch)"] by (simp add: k_def)
    with ne hd kl have fr: "fragment ch = c # take k cs" by (cases "fragment ch") auto
    have len: "length (take k cs) = k" using fr whole by (metis length_Cons nat.inject)
    have pre: "isPrefix (fragment ch) (c # cs)"
      using fr len by (simp add: isPrefix_def)
    have dr: "drop (length (fragment ch)) (c # cs) = drop k cs"
      using whole [symmetric] by simp
    have "traverse ch (drop k cs) = Some (x, [])"
      using "1.IH" at "1.prems"(2) Cons by simp
    then have "tryStatic sts (c # cs) = Some (x, [])"
      using tryStatic_findStatic_Some [OF i, of cs] pre dr by (simp add: ch_def)
    then show ?thesis using n Cons by simp
  qed
qed

lemma addPath_fragment:
  assumes "\<And>x x'. f x = Inr x' \<Longrightarrow> fragment x' = fragment x"
    and "addPath segs f n = Inr n'"
  shows "fragment n' = fragment n"
  using assms
proof (induction segs f n arbitrary: n' rule: addPath.induct)
  case (1 f n)
  then show ?case by simp
next
  case (2 segs f n)
  then show ?case by simp
next
  case (3 c cs segs f frag sts wc ca ms sl nms)
  from "3.prems"(2) show ?case
    by (auto simp: Let_def split: option.splits sum.splits)
next
  case (4 nm segs f frag sts wc ca ms sl nms)
  from "4.prems"(2) show ?case
    by (auto split: option.splits sum.splits if_splits)
next
  case (5 nm segs f frag sts wc ca ms sl nms)
  from "5.prems"(2) show ?case
    by (auto split: option.splits sum.splits if_splits)
qed

text \<open>The step of \<open>addPath\<close> at a static child, as one equation.\<close>

lemma addPath_static_step:
  assumes "findStatic c sts = Some i"
  shows "addPath (Static (c # cs) # segs) f (Node frag sts wc ca ms sl nms) =
     (case addPath (Static (drop (length (commonPrefix cs (tl (fragment (sts ! i))))) cs) # segs) f
             (if Suc (length (commonPrefix cs (tl (fragment (sts ! i))))) = length (fragment (sts ! i))
              then sts ! i
              else Node (take (Suc (length (commonPrefix cs (tl (fragment (sts ! i)))))) (fragment (sts ! i)))
                     [Node (drop (Suc (length (commonPrefix cs (tl (fragment (sts ! i)))))) (fragment (sts ! i)))
                        (staticChildren (sts ! i)) (wildcardChild (sts ! i))
                        (catchAllChild (sts ! i)) (methodTable (sts ! i)) (trailingSlash (sts ! i)) (paramNames (sts ! i))]
                     None None [] False []) of
        Inl e \<Rightarrow> Inl e
      | Inr ch' \<Rightarrow> Inr (Node frag (sts[i := ch']) wc ca ms sl nms))"
  using assms by (simp add: Let_def)

lemma addPath_nodeAt:
  assumes "\<And>x x'. f x = Inr x' \<Longrightarrow> fragment x' = fragment x"
    and "addPath segs f n = Inr n'"
  shows "\<exists>x x'. f x = Inr x' \<and> nodeAt n' segs = Some x'"
  using assms
proof (induction segs f n arbitrary: n' rule: addPath.induct)
  case (1 f n)
  then show ?case by auto
next
  case (2 segs f n)
  then show ?case by simp
next
  case (3 c cs segs f frag sts wc ca ms sl nms)
  note fr = "3.prems"(1)
  show ?case
  proof (cases "findStatic c sts")
    case None
    with "3.prems"(2) obtain ch where ch: "addPath segs f (emptyNode (c # cs)) = Inr ch"
      and n': "n' = Node frag (sts @ [ch]) wc ca ms sl nms"
      by (auto split: sum.splits)
    from "3.IH"(1) [OF None fr ch] obtain x x' where x: "f x = Inr x'" "nodeAt ch segs = Some x'"
      by blast
    have fch: "fragment ch = c # cs"
      using addPath_fragment [OF fr ch] by (simp add: emptyNode_def)
    then have "findStatic c (sts @ [ch]) = Some (length sts)"
      using None by (intro findStatic_append_None) simp_all
    moreover have "commonPrefix cs cs = cs" by (rule commonPrefix_of_prefix) simp
    ultimately have "nodeAt n' (Static (c # cs) # segs) = Some x'"
      using n' fch x(2) by (simp add: Let_def)
    with x(1) show ?thesis by blast
  next
    case (Some i)
    define ch where "ch = sts ! i"
    define k where "k = length (commonPrefix cs (tl (fragment ch)))"
    define target where "target =
        (if Suc k = length (fragment ch) then ch
         else Node (take (Suc k) (fragment ch))
                [Node (drop (Suc k) (fragment ch)) (staticChildren ch) (wildcardChild ch)
                   (catchAllChild ch) (methodTable ch) (trailingSlash ch) (paramNames ch)]
                None None [] False [])"
    from "3.prems"(2) obtain ch' where
      ch': "addPath (Static (drop k cs) # segs) f target = Inr ch'"
      and n': "n' = Node frag (sts[i := ch']) wc ca ms sl nms"
      unfolding addPath_static_step [OF Some] ch_def [symmetric] k_def [symmetric] target_def [symmetric]
      by (cases "addPath (Static (drop k cs) # segs) f target") auto
    from "3.IH"(2) [OF Some ch_def k_def target_def fr ch']
    obtain x x' where x: "f x = Inr x'" "nodeAt ch' (Static (drop k cs) # segs) = Some x'"
      by blast
    from findStatic_Some [OF Some] have il: "i < length sts" and ne: "fragment ch \<noteq> []"
      and hd: "hd (fragment ch) = c" by (simp_all add: ch_def)
    have kle: "k \<le> length (tl (fragment ch))" unfolding k_def by (rule commonPrefix_length)
    have ft: "fragment target = take (Suc k) (fragment ch)"
      using kle ne by (cases "fragment ch") (auto simp: target_def)
    have fch': "fragment ch' = take (Suc k) (fragment ch)"
      using addPath_fragment [OF fr ch'] ft by simp
    have tl': "tl (fragment ch') = take k (tl (fragment ch))"
      using fch' ne by (cases "fragment ch") auto
    have "commonPrefix cs (tl (fragment ch')) = commonPrefix cs (tl (fragment ch))"
      unfolding tl' k_def by (rule commonPrefix_idem)
    then have k2: "length (commonPrefix cs (tl (fragment ch'))) = k" by (simp add: k_def)
    have len: "length (fragment ch') = Suc k"
      using fch' kle ne by (cases "fragment ch") auto
    have ne': "fragment ch' \<noteq> []" "hd (fragment ch') = c"
      using fch' ne hd by (cases "fragment ch"; simp)+
    have fs: "findStatic c (sts[i := ch']) = Some i"
      using Some ne' by (rule findStatic_update)
    have "nodeAt n' (Static (c # cs) # segs) = Some x'"
      using n' fs il k2 len x(2) by (simp add: Let_def)
    with x(1) show ?thesis by blast
  qed
next
  case (4 nm segs f frag sts wc ca ms sl nms)
  note fr = "4.prems"(1)
  define start where "start = (case wc of None \<Rightarrow> emptyNode [] | Some ch \<Rightarrow> ch)"
  from "4.prems"(2) obtain ch' where ch': "addPath segs f start = Inr ch'"
    and n': "n' = Node frag sts (Some ch') ca ms sl nms"
    by (auto simp: start_def split: sum.splits)
  from "4.IH" [OF fr ch' [unfolded start_def]] n' show ?case by auto
next
  case (5 nm segs f frag sts wc ca ms sl nms)
  from "5.prems"(2) have segs: "segs = []" by (auto split: if_splits)
  show ?case
  proof (cases ca)
    case None
    with "5.prems"(2) segs obtain ch where "f (emptyNode []) = Inr ch"
      "n' = Node frag sts wc (Some (nm, ch)) ms sl nms"
      by (auto split: sum.splits)
    with segs show ?thesis by auto
  next
    case (Some p)
    obtain nm' ch where p: "p = (nm', ch)" by (cases p)
    with "5.prems"(2) Some segs obtain ch' where "nm' = nm" "f ch = Inr ch'"
      "n' = Node frag sts wc (Some (nm, ch')) ms sl nms"
      by (auto split: sum.splits if_splits)
    with segs show ?thesis by auto
  qed
qed

lemma addPath_at_existing_node:
  assumes "\<And>x x'. f x = Inr x' \<Longrightarrow> fragment x' = fragment x"
    and "nodeAt n segs = Some x" and "f x = Inr x'"
  shows "\<exists>n'. addPath segs f n = Inr n' \<and> nodeAt n' segs = Some x'"
  using assms
proof (induction segs f n rule: addPath.induct)
  case (1 f n)
  then show ?case by simp
next
  case (2 segs f n)
  then show ?case by simp
next
  case (3 c cs segs f frag sts wc ca ms sl nms)
  from "3.prems"(2) obtain i where i: "findStatic c sts = Some i"
    by (auto split: option.splits)
  define ch where "ch = sts ! i"
  define k where "k = length (commonPrefix cs (tl (fragment ch)))"
  from "3.prems"(2) i have whole: "Suc k = length (fragment ch)"
    and at: "nodeAt ch (Static (drop k cs) # segs) = Some x"
    by (auto simp: Let_def ch_def k_def split: if_splits)
  define target where "target =
        (if Suc k = length (fragment ch) then ch
         else Node (take (Suc k) (fragment ch))
                [Node (drop (Suc k) (fragment ch)) (staticChildren ch) (wildcardChild ch)
                   (catchAllChild ch) (methodTable ch) (trailingSlash ch) (paramNames ch)]
                None None [] False [])"
  have tch: "target = ch" using whole by (simp add: target_def)
  from "3.IH"(2) [OF i ch_def k_def target_def "3.prems"(1)] at "3.prems"(3) tch
  obtain ch' where ch': "addPath (Static (drop k cs) # segs) f ch = Inr ch'"
    and at': "nodeAt ch' (Static (drop k cs) # segs) = Some x'"
    by auto
  have fr: "fragment ch' = fragment ch"
    using "3.prems"(1) ch' by (rule addPath_fragment)
  have step: "addPath (Static (c # cs) # segs) f (Node frag sts wc ca ms sl nms) =
        Inr (Node frag (sts[i := ch']) wc ca ms sl nms)"
    using i whole ch' by (simp add: Let_def ch_def k_def)
  have il: "i < length sts" and "fragment ch \<noteq> []" "hd (fragment ch) = c"
    using findStatic_Some [OF i] by (simp_all add: ch_def)
  then have fs: "findStatic c (sts[i := ch']) = Some i"
    using i fr by (intro findStatic_update) simp_all
  have "nodeAt (Node frag (sts[i := ch']) wc ca ms sl nms) (Static (c # cs) # segs) = Some x'"
    using fs il fr whole at' by (simp add: Let_def k_def)
  with step show ?case by simp
next
  case (4 nm segs f frag sts wc ca ms sl nms)
  from "4.prems"(2) obtain ch where wc: "wc = Some ch" and at: "nodeAt ch segs = Some x"
    by (auto split: option.splits)
  from "4.IH" [OF "4.prems"(1) _ "4.prems"(3)] at wc
  obtain ch' where "addPath segs f ch = Inr ch'" "nodeAt ch' segs = Some x'" by auto
  with wc show ?case by simp
next
  case (5 nm segs f frag sts wc ca ms sl nms)
  from "5.prems"(2) have ca: "ca = Some (nm, x)" and segs: "segs = []"
    by (auto split: option.splits if_splits)
  with "5.prems"(3) show ?case by simp
qed

subsection \<open>Routes survive later insertions\<close>

lemma nodeAt_append:
  "nodeAt n (a @ b) = Some x \<Longrightarrow> \<exists>m. nodeAt n a = Some m \<and> nodeAt m b = Some x"
proof (induction n a rule: nodeAt.induct)
  case (1 n)
  then show ?case by simp
next
  case (2 n segs)
  then show ?case by simp
next
  case (3 frag sts wc ca ms sl nms c cs segs)
  from "3.prems" obtain i where i: "findStatic c sts = Some i"
    by (auto split: option.splits)
  from "3.prems" i
  have whole: "Suc (length (commonPrefix cs (tl (fragment (sts ! i))))) = length (fragment (sts ! i))"
    and at: "nodeAt (sts ! i)
               ((Static (drop (length (commonPrefix cs (tl (fragment (sts ! i))))) cs) # segs) @ b) = Some x"
    by (auto simp: Let_def split: if_splits)
  from "3.IH" [OF i refl refl whole at] i whole show ?case by (simp add: Let_def)
next
  case (4 frag sts wc ca ms sl nms nm segs)
  from "4.prems" obtain ch where wc: "wc = Some ch" and at: "nodeAt ch (segs @ b) = Some x"
    by (auto split: option.splits)
  from "4.IH" [OF wc at] wc show ?case by simp
next
  case (5 frag sts wc ca ms sl nms nm segs)
  then show ?case by (auto split: option.splits if_splits)
qed

text \<open>Empty static segments apart, a pattern is empty or starts with a child of the node.\<close>

lemma nodeAt_head:
  "\<exists>segs'. (\<forall>n :: 'h node. nodeAt n segs = nodeAt n segs')
     \<and> (segs' = [] \<or> (\<exists>d ds tail. segs' = Static (d # ds) # tail)
        \<or> (\<exists>nm tail. segs' = Wildcard nm # tail) \<or> (\<exists>nm tail. segs' = CatchAll nm # tail))"
proof (induction segs)
  case Nil
  have "(\<forall>n :: 'h node. nodeAt n [] = nodeAt n []) \<and> ([] :: segment list) = []" by simp
  then show ?case by blast
next
  case (Cons a segs)
  show ?case
  proof (cases a)
    case (Static s)
    show ?thesis
    proof (cases s)
      case Nil
      with Static Cons.IH show ?thesis by simp
    next
      case (Cons d ds)
      with Static show ?thesis by blast
    qed
  next
    case (Wildcard nm)
    then show ?thesis by blast
  next
    case (CatchAll nm)
    then show ?thesis by blast
  qed
qed

lemma nodeAt_same_children:
  assumes "staticChildren n' = staticChildren n" and "wildcardChild n' = wildcardChild n"
    and "catchAllChild n' = catchAllChild n" and "nodeAt n segs = Some x"
  shows "nodeAt n' segs = Some x \<or> (x = n \<and> nodeAt n' segs = Some n')"
proof -
  obtain segs' where eq: "\<And>y :: 'a node. nodeAt y segs = nodeAt y segs'"
    and shape: "segs' = [] \<or> (\<exists>d ds tail. segs' = Static (d # ds) # tail)
        \<or> (\<exists>nm tail. segs' = Wildcard nm # tail) \<or> (\<exists>nm tail. segs' = CatchAll nm # tail)"
    using nodeAt_head [where segs = segs] by blast
  from assms(4) have at: "nodeAt n segs' = Some x" by (simp add: eq)
  from shape have "nodeAt n' segs' = Some x \<or> (x = n \<and> nodeAt n' segs' = Some n')"
  proof (elim disjE exE)
    assume "segs' = []"
    with at show ?thesis by simp
  next
    fix d ds tail assume "segs' = Static (d # ds) # tail"
    with at assms(1) show ?thesis by (cases n; cases n') simp
  next
    fix nm tail assume "segs' = Wildcard nm # tail"
    with at assms(2) show ?thesis by (cases n; cases n') simp
  next
    fix nm tail assume "segs' = CatchAll nm # tail"
    with at assms(3) show ?thesis by (cases n; cases n') simp
  qed
  then show ?thesis by (simp add: eq)
qed

lemma nodeAt_same_children_keeps:
  assumes "staticChildren n' = staticChildren n" and "wildcardChild n' = wildcardChild n"
    and "catchAllChild n' = catchAllChild n"
    and "Q (methodTable n) (paramNames n) \<longrightarrow> Q (methodTable n') (paramNames n')"
    and "nodeAt n segs = Some x" and "Q (methodTable x) (paramNames x)"
  shows "\<exists>x'. nodeAt n' segs = Some x' \<and> Q (methodTable x') (paramNames x')"
  using nodeAt_same_children [OF assms(1,2,3,5)] assms(4,6) by auto

text \<open>The descent through a node that has just been split.\<close>

lemma nodeAt_split:
  assumes "j < length frag" and "take (length frag - j) ds = drop j frag"
    and "nodeAt (Node frag sts wc ca ms sl nms) (Static (drop (length frag - j) ds) # tail) = Some x"
  shows "\<exists>x'. nodeAt (Node pre [Node (drop j frag) sts wc ca ms sl nms] None None [] False [])
                 (Static ds # tail) = Some x'
              \<and> methodTable x' = methodTable x \<and> paramNames x' = paramNames x"
proof -
  define suf where "suf = drop j frag"
  define r where "r = drop (length frag - j) ds"
  have sl: "length suf = length frag - j" by (simp add: suf_def)
  from assms(1) have sne: "suf \<noteq> []" by (simp add: suf_def)
  then obtain e es where suf: "suf = e # es" by (cases suf) auto
  have ds: "ds = suf @ r"
    using assms(2) append_take_drop_id [of "length frag - j" ds] by (simp add: suf_def r_def)
  have cp: "commonPrefix (es @ r) es = es" by (rule commonPrefix_of_prefix) simp
  have step: "nodeAt (Node pre [Node suf sts wc ca ms sl nms] None None [] False []) (Static ds # tail)
      = nodeAt (Node suf sts wc ca ms sl nms) (Static r # tail)"
    using suf ds cp by (simp add: Let_def)
  from assms(3) have at: "nodeAt (Node frag sts wc ca ms sl nms) (Static r # tail) = Some x"
    by (simp add: r_def)
  have "nodeAt (Node suf sts wc ca ms sl nms) (Static r # tail) = Some x
      \<or> (x = Node frag sts wc ca ms sl nms
         \<and> nodeAt (Node suf sts wc ca ms sl nms) (Static r # tail) = Some (Node suf sts wc ca ms sl nms))"
    by (rule nodeAt_same_children [OF _ _ _ at]) simp_all
  with step show ?thesis by (auto simp: suf_def)
qed

lemma addPath_keeps_routes:
  assumes "\<And>y y'. f y = Inr y' \<Longrightarrow>
             fragment y' = fragment y \<and> staticChildren y' = staticChildren y
             \<and> wildcardChild y' = wildcardChild y \<and> catchAllChild y' = catchAllChild y
             \<and> (Q (methodTable y) (paramNames y) \<longrightarrow> Q (methodTable y') (paramNames y'))"
    and "addPath segs f n = Inr n'"
    and "nodeAt n segs2 = Some x" and "Q (methodTable x) (paramNames x)"
  shows "\<exists>x'. nodeAt n' segs2 = Some x' \<and> Q (methodTable x') (paramNames x')"
  using assms
proof (induction segs f n arbitrary: n' segs2 x rule: addPath.induct)
  case (1 f n)
  from "1.prems"(1) [of n n'] "1.prems"(2)
  have same: "staticChildren n' = staticChildren n" "wildcardChild n' = wildcardChild n"
    "catchAllChild n' = catchAllChild n"
    "Q (methodTable n) (paramNames n) \<longrightarrow> Q (methodTable n') (paramNames n')"
    by simp_all
  from nodeAt_same_children_keeps [where Q = Q, OF same "1.prems"(3,4)] show ?case .
next
  case (2 segs f n)
  from "2.IH" [OF "2.prems"(1) _ "2.prems"(3,4)] "2.prems"(2) show ?case by simp
next
  case (3 c cs segs f frag sts wc ca ms sl nms)
  note fa = "3.prems"(1)
  have fr: "\<And>x x'. f x = Inr x' \<Longrightarrow> fragment x' = fragment x" using fa by blast
  obtain segs2' where eq: "\<And>y :: 'a node. nodeAt y segs2 = nodeAt y segs2'"
    and shape: "segs2' = [] \<or> (\<exists>d ds tail. segs2' = Static (d # ds) # tail)
        \<or> (\<exists>nm tail. segs2' = Wildcard nm # tail) \<or> (\<exists>nm tail. segs2' = CatchAll nm # tail)"
    using nodeAt_head [where segs = segs2] by blast
  from "3.prems"(3) have at2: "nodeAt (Node frag sts wc ca ms sl nms) segs2' = Some x"
    by (simp add: eq)
  from "3.prems"(2) obtain sts' where n0: "n' = Node frag sts' wc ca ms sl nms"
    by (auto simp: Let_def split: option.splits sum.splits)
  from shape have "\<exists>x'. nodeAt n' segs2' = Some x' \<and> Q (methodTable x') (paramNames x')"
  proof (elim disjE exE)
    assume "segs2' = []"
    with at2 n0 "3.prems"(4) show ?thesis by auto
  next
    fix nm2 tail assume "segs2' = Wildcard nm2 # tail"
    with at2 n0 "3.prems"(4) show ?thesis by auto
  next
    fix nm2 tail assume "segs2' = CatchAll nm2 # tail"
    with at2 n0 "3.prems"(4) show ?thesis by auto
  next
    fix d ds tail assume s2: "segs2' = Static (d # ds) # tail"
    from at2 s2 obtain j where j: "findStatic d sts = Some j"
      by (auto split: option.splits)
    define chj where "chj = sts ! j"
    define kj where "kj = length (commonPrefix ds (tl (fragment chj)))"
    from at2 s2 j have wholej: "Suc kj = length (fragment chj)"
      and atj: "nodeAt chj (Static (drop kj ds) # tail) = Some x"
      by (auto simp: Let_def chj_def kj_def split: if_splits)
    from findStatic_Some [OF j] have jl: "j < length sts" and nej: "fragment chj \<noteq> []"
      and hdj: "hd (fragment chj) = d" by (simp_all add: chj_def)
    show ?thesis
    proof (cases "findStatic c sts")
      case None
      with "3.prems"(2) obtain ch where n1: "n' = Node frag (sts @ [ch]) wc ca ms sl nms"
        by (auto split: sum.splits)
      have "findStatic d (sts @ [ch]) = Some j" using j by (rule findStatic_append_Some)
      moreover have "(sts @ [ch]) ! j = sts ! j" using jl by (simp add: nth_append)
      ultimately have "nodeAt n' (Static (d # ds) # tail) = Some x"
        using n1 wholej atj by (simp add: Let_def chj_def kj_def)
      with "3.prems"(4) s2 show ?thesis by auto
    next
      case (Some i)
      define ch where "ch = sts ! i"
      define k where "k = length (commonPrefix cs (tl (fragment ch)))"
      define target where "target =
          (if Suc k = length (fragment ch) then ch
           else Node (take (Suc k) (fragment ch))
                  [Node (drop (Suc k) (fragment ch)) (staticChildren ch) (wildcardChild ch)
                     (catchAllChild ch) (methodTable ch) (trailingSlash ch) (paramNames ch)]
                  None None [] False [])"
      from "3.prems"(2) obtain ch' where
        ch': "addPath (Static (drop k cs) # segs) f target = Inr ch'"
        and n1: "n' = Node frag (sts[i := ch']) wc ca ms sl nms"
        unfolding addPath_static_step [OF Some] ch_def [symmetric] k_def [symmetric] target_def [symmetric]
        by (cases "addPath (Static (drop k cs) # segs) f target") auto
      from findStatic_Some [OF Some] have il: "i < length sts" and ne: "fragment ch \<noteq> []"
        and hd: "hd (fragment ch) = c" by (simp_all add: ch_def)
      have kle: "k \<le> length (tl (fragment ch))" unfolding k_def by (rule commonPrefix_length)
      have ft: "fragment target = take (Suc k) (fragment ch)"
        using kle ne by (cases "fragment ch") (auto simp: target_def)
      have fch': "fragment ch' = take (Suc k) (fragment ch)"
        using addPath_fragment [OF fr ch'] ft by simp
      have ne': "fragment ch' \<noteq> []" "hd (fragment ch') = c"
        using fch' ne hd by (cases "fragment ch"; simp)+
      show ?thesis
      proof (cases "d = c")
        case False
        with hd hdj have ji: "j \<noteq> i" by (auto simp: ch_def chj_def)
        have "findStatic d (sts[i := ch']) = Some j"
          using j ji ne' False by (intro findStatic_update_other) auto
        moreover have "(sts[i := ch']) ! j = sts ! j" using ji by simp
        ultimately have "nodeAt n' (Static (d # ds) # tail) = Some x"
          using n1 wholej atj by (simp add: Let_def chj_def kj_def)
        with "3.prems"(4) s2 show ?thesis by auto
      next
        case True
        with j Some have ji: "j = i" by simp
        then have chj: "chj = ch" by (simp add: chj_def ch_def)
        have kjl: "kj = length (tl (fragment ch))"
          using wholej ne chj by (cases "fragment ch") auto
        have tk: "take kj ds = tl (fragment ch)"
          using commonPrefix_whole [of ds "tl (fragment ch)"] kjl chj by (simp add: kj_def)
        have "\<exists>xx. nodeAt target (Static (drop k ds) # tail) = Some xx
                \<and> methodTable xx = methodTable x \<and> paramNames xx = paramNames x"
        proof (cases "Suc k = length (fragment ch)")
          case True
          with kjl ne have "k = kj" by (cases "fragment ch") auto
          with True atj chj show ?thesis by (simp add: target_def)
        next
          case False
          with kle ne have lt: "Suc k < length (fragment ch)" by (cases "fragment ch") auto
          obtain fr0 sts0 wc0 ca0 ms0 sl0 nms0 where c0: "ch = Node fr0 sts0 wc0 ca0 ms0 sl0 nms0"
            by (cases ch)
          have l0: "length fr0 - Suc k = kj - k" using kjl c0 ne by (cases fr0) auto
          have d1: "drop (kj - k) (drop k ds) = drop kj ds"
            using lt kjl ne by (cases "fragment ch") auto
          have "take (kj - k) (drop k ds) = drop k (take kj ds)"
            by (simp add: drop_take)
          also have "\<dots> = drop (Suc k) fr0"
            using tk c0 ne by (cases fr0) auto
          finally have t1: "take (length fr0 - Suc k) (drop k ds) = drop (Suc k) fr0"
            using l0 by simp
          have a1: "nodeAt (Node fr0 sts0 wc0 ca0 ms0 sl0 nms0)
                      (Static (drop (length fr0 - Suc k) (drop k ds)) # tail) = Some x"
            using atj chj c0 l0 d1 by simp
          from nodeAt_split [OF _ t1 a1, where pre = "take (Suc k) fr0"] lt c0
          show ?thesis using False by (simp add: target_def)
        qed
        then obtain xx where xx: "nodeAt target (Static (drop k ds) # tail) = Some xx"
          and mxx: "methodTable xx = methodTable x" and pxx: "paramNames xx = paramNames x" by blast
        from mxx pxx "3.prems"(4) have qxx: "Q (methodTable xx) (paramNames xx)" by simp
        from "3.IH"(2) [OF Some ch_def k_def target_def fa ch' xx qxx]
        obtain x' where x': "nodeAt ch' (Static (drop k ds) # tail) = Some x'"
          "Q (methodTable x') (paramNames x')" by blast
        have tl': "tl (fragment ch') = take k (tl (fragment ch))"
          using fch' ne by (cases "fragment ch") auto
        have "take (length (take k (tl (fragment ch)))) ds = take k (tl (fragment ch))"
          using tk kle kjl by (metis length_take take_take min.commute)
        then have "commonPrefix ds (tl (fragment ch')) = tl (fragment ch')"
          unfolding tl' by (rule commonPrefix_of_prefix)
        then have k2: "length (commonPrefix ds (tl (fragment ch'))) = k"
          using tl' kle by simp
        have len: "length (fragment ch') = Suc k"
          using fch' kle ne by (cases "fragment ch") auto
        have fs: "findStatic c (sts[i := ch']) = Some i"
          using Some ne' by (rule findStatic_update)
        have "nodeAt n' (Static (d # ds) # tail) = Some x'"
          using n1 fs il k2 len x'(1) True by (simp add: Let_def)
        with x'(2) s2 show ?thesis by auto
      qed
    qed
  qed
  then show ?case by (simp add: eq)
next
  case (4 nm segs f frag sts wc ca ms sl nms)
  define start where "start = (case wc of None \<Rightarrow> emptyNode [] | Some ch \<Rightarrow> ch)"
  from "4.prems"(2) obtain ch' where ch': "addPath segs f start = Inr ch'"
    and n0: "n' = Node frag sts (Some ch') ca ms sl nms"
    by (auto simp: start_def split: sum.splits)
  obtain segs2' where eq: "\<And>y :: 'a node. nodeAt y segs2 = nodeAt y segs2'"
    and shape: "segs2' = [] \<or> (\<exists>d ds tail. segs2' = Static (d # ds) # tail)
        \<or> (\<exists>nm tail. segs2' = Wildcard nm # tail) \<or> (\<exists>nm tail. segs2' = CatchAll nm # tail)"
    using nodeAt_head [where segs = segs2] by blast
  from "4.prems"(3) have at2: "nodeAt (Node frag sts wc ca ms sl nms) segs2' = Some x"
    by (simp add: eq)
  from shape have "\<exists>x'. nodeAt n' segs2' = Some x' \<and> Q (methodTable x') (paramNames x')"
  proof (elim disjE exE)
    assume "segs2' = []"
    with at2 n0 "4.prems"(4) show ?thesis by auto
  next
    fix d ds tail assume "segs2' = Static (d # ds) # tail"
    with at2 n0 "4.prems"(4) show ?thesis by auto
  next
    fix nm2 tail assume "segs2' = CatchAll nm2 # tail"
    with at2 n0 "4.prems"(4) show ?thesis by auto
  next
    fix nm2 tail assume s2: "segs2' = Wildcard nm2 # tail"
    with at2 obtain ch where wc: "wc = Some ch" and at: "nodeAt ch tail = Some x"
      by (auto split: option.splits)
    then have at': "nodeAt start tail = Some x" by (simp add: start_def)
    from "4.IH" [OF "4.prems"(1) ch' [unfolded start_def] at' [unfolded start_def] "4.prems"(4)]
    obtain x' where "nodeAt ch' tail = Some x'" "Q (methodTable x') (paramNames x')" by blast
    with n0 s2 show ?thesis by simp
  qed
  then show ?case by (simp add: eq)
next
  case (5 nm segs f frag sts wc ca ms sl nms)
  from "5.prems"(2) have segs: "segs = []" by (auto split: if_splits)
  from "5.prems"(2) segs obtain y ch' where fy: "f y = Inr ch'"
    and n0: "n' = Node frag sts wc (Some (nm, ch')) ms sl nms"
    and was: "ca = None \<or> ca = Some (nm, y)"
    by (auto split: option.splits sum.splits if_splits)
  obtain segs2' where eq: "\<And>y :: 'a node. nodeAt y segs2 = nodeAt y segs2'"
    and shape: "segs2' = [] \<or> (\<exists>d ds tail. segs2' = Static (d # ds) # tail)
        \<or> (\<exists>nm tail. segs2' = Wildcard nm # tail) \<or> (\<exists>nm tail. segs2' = CatchAll nm # tail)"
    using nodeAt_head [where segs = segs2] by blast
  from "5.prems"(3) have at2: "nodeAt (Node frag sts wc ca ms sl nms) segs2' = Some x"
    by (simp add: eq)
  from shape have "\<exists>x'. nodeAt n' segs2' = Some x' \<and> Q (methodTable x') (paramNames x')"
  proof (elim disjE exE)
    assume "segs2' = []"
    with at2 n0 "5.prems"(4) show ?thesis by auto
  next
    fix d ds tail assume "segs2' = Static (d # ds) # tail"
    with at2 n0 "5.prems"(4) show ?thesis by auto
  next
    fix nm2 tail assume "segs2' = Wildcard nm2 # tail"
    with at2 n0 "5.prems"(4) show ?thesis by auto
  next
    fix nm2 tail assume s2: "segs2' = CatchAll nm2 # tail"
    with at2 have ca: "ca = Some (nm2, x)" and tail: "tail = []"
      by (auto split: option.splits if_splits)
    with was have same: "nm2 = nm" "y = x" by auto
    from "5.prems"(1) [OF fy] same "5.prems"(4)
    have "Q (methodTable ch') (paramNames ch')" by simp
    with n0 s2 same tail show ?thesis by simp
  qed
  then show ?case by (simp add: eq)
qed

lemma setRoute_result:
  assumes "setRoute meth h sl names x = Inr x'"
  shows "fragment x' = fragment x \<and> staticChildren x' = staticChildren x
       \<and> wildcardChild x' = wildcardChild x \<and> catchAllChild x' = catchAllChild x
       \<and> meth \<notin> fst ` set (methodTable x)
       \<and> methodTable x' = methodTable x @ [(meth, h)]
       \<and> paramNames x' = names
       \<and> (methodTable x \<noteq> [] \<longrightarrow> paramNames x = names)"
  using assms by (auto simp: setRoute_def split: if_splits)

lemma map_of_snoc_keeps: "map_of tbl m = Some h \<Longrightarrow> map_of (tbl @ [e]) m = Some h"
  by (induction tbl) auto

lemma map_of_snoc_new: "m \<notin> fst ` set tbl \<Longrightarrow> map_of (tbl @ [(m, h)]) m = Some h"
  by (induction tbl) auto

lemma Insert_route:
  assumes "Insert meth pattern h t = Inr t'"
    and "segments True (stripSlash pattern) = Inr segs"
  shows "\<exists>x. nodeAt t' segs = Some x \<and> map_of (methodTable x) meth = Some h
            \<and> paramNames x = wildcardNames segs"
proof -
  from assms
  have ap: "addPath segs (setRoute meth h (endsWithSlash pattern) (wildcardNames segs)) t = Inr t'"
    by (simp add: Insert_def)
  have "\<exists>x x'. setRoute meth h (endsWithSlash pattern) (wildcardNames segs) x = Inr x'
          \<and> nodeAt t' segs = Some x'"
    using _ ap by (rule addPath_nodeAt) (simp add: setRoute_result)
  then obtain x x' where sr: "setRoute meth h (endsWithSlash pattern) (wildcardNames segs) x = Inr x'"
    and at: "nodeAt t' segs = Some x'" by blast
  from setRoute_result [OF sr] have new: "meth \<notin> fst ` set (methodTable x)"
    and tbl: "methodTable x' = methodTable x @ [(meth, h)]"
    and nms: "paramNames x' = wildcardNames segs" by simp_all
  have "map_of (methodTable x') meth = Some h"
    unfolding tbl using new by (rule map_of_snoc_new)
  with at nms show ?thesis by blast
qed

lemma Insert_keeps_route:
  assumes "Insert meth' pattern' h' t = Inr t'"
    and "nodeAt t segs = Some x"
    and "map_of (methodTable x) m = Some h" and "paramNames x = names"
  shows "\<exists>x'. nodeAt t' segs = Some x' \<and> map_of (methodTable x') m = Some h
             \<and> paramNames x' = names"
proof -
  from assms(1) obtain segs' where
    ap: "addPath segs' (setRoute meth' h' (endsWithSlash pattern') (wildcardNames segs')) t = Inr t'"
    by (auto simp: Insert_def split: sum.splits)
  define Q where "Q = (\<lambda>tbl nms. map_of tbl m = Some h \<and> nms = names)"
  have keep: "\<And>y y'. setRoute meth' h' (endsWithSlash pattern') (wildcardNames segs') y = Inr y' \<Longrightarrow>
             fragment y' = fragment y \<and> staticChildren y' = staticChildren y
             \<and> wildcardChild y' = wildcardChild y \<and> catchAllChild y' = catchAllChild y
             \<and> (Q (methodTable y) (paramNames y) \<longrightarrow> Q (methodTable y') (paramNames y'))"
  proof -
    fix y y'
    assume sr: "setRoute meth' h' (endsWithSlash pattern') (wildcardNames segs') y = Inr y'"
    note r = setRoute_result [OF sr]
    have "Q (methodTable y') (paramNames y')" if q: "Q (methodTable y) (paramNames y)"
    proof -
      from q have mo: "map_of (methodTable y) m = Some h" and pn: "paramNames y = names"
        by (simp_all add: Q_def)
      from mo have "methodTable y \<noteq> []" by auto
      with r have "paramNames y' = paramNames y" by simp
      moreover from r mo have "map_of (methodTable y') m = Some h"
        by (simp add: map_of_snoc_keeps)
      ultimately show ?thesis using pn by (simp add: Q_def)
    qed
    with r show "fragment y' = fragment y \<and> staticChildren y' = staticChildren y
             \<and> wildcardChild y' = wildcardChild y \<and> catchAllChild y' = catchAllChild y
             \<and> (Q (methodTable y) (paramNames y) \<longrightarrow> Q (methodTable y') (paramNames y'))"
      by blast
  qed
  from assms(3,4) have "Q (methodTable x) (paramNames x)" by (simp add: Q_def)
  from addPath_keeps_routes [where Q = Q, OF keep ap assms(2) this]
  show ?thesis by (simp add: Q_def)
qed

lemma InsertAll_keeps_route:
  "InsertAll rs t = Inr t' \<Longrightarrow> nodeAt t segs = Some x \<Longrightarrow>
   map_of (methodTable x) m = Some h \<Longrightarrow> paramNames x = names \<Longrightarrow>
     \<exists>x'. nodeAt t' segs = Some x' \<and> map_of (methodTable x') m = Some h \<and> paramNames x' = names"
proof (induction rs arbitrary: t x)
  case Nil
  then show ?case by simp
next
  case (Cons r rs)
  obtain m1 p1 h1 where r: "r = (m1, p1, h1)" by (cases r)
  with Cons.prems(1) obtain t1 where t1: "Insert m1 p1 h1 t = Inr t1" "InsertAll rs t1 = Inr t'"
    by (auto split: sum.splits)
  from Insert_keeps_route [OF t1(1) Cons.prems(2,3,4)]
  obtain x1 where "nodeAt t1 segs = Some x1" "map_of (methodTable x1) m = Some h"
    "paramNames x1 = names" by blast
  from Cons.IH [OF t1(2) this] show ?case .
qed

lemma InsertAll_route:
  "InsertAll rs t = Inr t' \<Longrightarrow> (meth, pattern, h) \<in> set rs \<Longrightarrow>
   segments True (stripSlash pattern) = Inr segs \<Longrightarrow>
     \<exists>x. nodeAt t' segs = Some x \<and> map_of (methodTable x) meth = Some h
        \<and> paramNames x = wildcardNames segs"
proof (induction rs arbitrary: t)
  case Nil
  then show ?case by simp
next
  case (Cons r rs)
  obtain m1 p1 h1 where r: "r = (m1, p1, h1)" by (cases r)
  with Cons.prems(1) obtain t1 where t1: "Insert m1 p1 h1 t = Inr t1" "InsertAll rs t1 = Inr t'"
    by (auto split: sum.splits)
  show ?case
  proof (cases "r = (meth, pattern, h)")
    case True
    with r t1(1) have "Insert meth pattern h t = Inr t1" by simp
    from Insert_route [OF this Cons.prems(3)]
    obtain x1 where "nodeAt t1 segs = Some x1" "map_of (methodTable x1) meth = Some h"
      "paramNames x1 = wildcardNames segs" by blast
    from InsertAll_keeps_route [OF t1(2) this] show ?thesis .
  next
    case False
    with Cons.prems(2) have "(meth, pattern, h) \<in> set rs" by simp
    from Cons.IH [OF t1(2) this Cons.prems(3)] show ?thesis .
  qed
qed

subsection \<open>Positions of the traversal\<close>

lemma position_traverse:
  "position r p trail = Some (N, q, vs) \<Longrightarrow> traverse N q = Some (x, ws) \<Longrightarrow>
     traverse r p = Some (x, vs @ ws)"
proof (induction r p trail arbitrary: vs rule: position.induct)
  case (1 n path)
  then show ?case by simp
next
  case (2 frag sts wc ca ms sl nms path bs)
  from "2.prems"(1) have ne: "path \<noteq> []" by (auto split: if_splits)
  then obtain c cs where path: "path = c # cs" by (cases path) auto
  from "2.prems"(1) ne obtain i where i: "findStatic (hd path) sts = Some i"
    by (auto split: option.splits)
  from "2.prems"(1) ne i have pre: "isPrefix (fragment (sts ! i)) path"
    and pos: "position (sts ! i) (drop (length (fragment (sts ! i))) path) bs = Some (N, q, vs)"
    by (auto split: if_splits)
  from "2.IH" [OF ne i pre pos "2.prems"(2)]
  have "traverse (sts ! i) (drop (length (fragment (sts ! i))) path) = Some (x, vs @ ws)" .
  with tryStatic_findStatic_Some [where c = c and cs = cs and sts = sts and i = i] i pre path
  have "tryStatic sts path = Some (x, vs @ ws)" by simp
  then show ?case by (rule traverse_static) (simp add: ne)
next
  case (3 frag sts wc ca ms sl nms path bs)
  from "3.prems"(1) have nt: "\<not> (path = [] \<and> ms \<noteq> [])" by (auto split: if_splits)
  from "3.prems"(1) nt have ns: "tryStatic sts path = None"
    by (cases "tryStatic sts path") (simp_all split: if_splits)
  have c1: "(path = [] \<and> ms \<noteq> []) = False" using nt by simp
  have c2: "(tryStatic sts path \<noteq> None) = False" using ns by simp
  have step: "(case wc of
         None \<Rightarrow> None
       | Some ch \<Rightarrow>
           (let thisToken = takeWhile (\<lambda>x. x \<noteq> CHR ''/'') path;
                nextToken = dropWhile (\<lambda>x. x \<noteq> CHR ''/'') path
            in if thisToken = [] then None
               else (case position ch nextToken bs of
                       None \<Rightarrow> None
                     | Some (n', q, vs) \<Rightarrow> Some (n', q, UnescapeParam thisToken # vs)))) = Some (N, q, vs)"
    using "3.prems"(1) unfolding position.simps c1 c2 if_False .
  then obtain ch where wc: "wc = Some ch" by (cases wc) simp_all
  from step wc have tok: "takeWhile (\<lambda>x. x \<noteq> CHR ''/'') path \<noteq> []"
    by (auto simp: Let_def split: if_splits)
  from step wc tok obtain vs' where
    pos: "position ch (dropWhile (\<lambda>x. x \<noteq> CHR ''/'') path) bs = Some (N, q, vs')"
    and vs: "vs = UnescapeParam (takeWhile (\<lambda>x. x \<noteq> CHR ''/'') path) # vs'"
    by (auto simp: Let_def split: option.splits)
  have ns': "\<not> tryStatic sts path \<noteq> None" using ns by simp
  from "3.IH" [OF nt ns' wc refl refl tok pos "3.prems"(2)]
  have "traverse ch (dropWhile (\<lambda>x. x \<noteq> CHR ''/'') path) = Some (x, vs' @ ws)" .
  from traverse_wildcard [OF nt ns tok this] wc vs show ?case by simp
qed

lemma static_route_wins_in_any_order:
  assumes "InsertAll rs t0 = Inr r" and "(meth, pattern, h) \<in> set rs"
    and "segments True (stripSlash pattern) = Inr (pre @ [Static s])"
  shows "\<exists>N. nodeAt r pre = Some N
           \<and> (\<forall>p trail vs. position r p trail = Some (N, s, vs) \<longrightarrow>
                 Lookup meth r p = Found h (bindParams (wildcardNames pre) vs))"
proof -
  from InsertAll_route [OF assms]
  obtain x where x: "nodeAt r (pre @ [Static s]) = Some x" "map_of (methodTable x) meth = Some h"
    "paramNames x = wildcardNames (pre @ [Static s])" by blast
  have wn: "wildcardNames (pre @ [Static s]) = wildcardNames pre"
    by (induction pre rule: wildcardNames.induct) simp_all
  from nodeAt_append [OF x(1)] obtain N where N: "nodeAt r pre = Some N"
    "nodeAt N [Static s] = Some x" by blast
  from x(2) have "methodTable x \<noteq> []" by auto
  with N(2) have tr: "traverse N s = Some (x, [])" by (rule nodeAt_static_search)
  have "Lookup meth r p = Found h (bindParams (wildcardNames pre) vs)"
    if "position r p trail = Some (N, s, vs)" for p trail vs
    using position_traverse [OF that tr] x(2,3) wn by (simp add: Lookup_def search_def)
  with N(1) show ?thesis by blast
qed

subsection \<open>A tree with one static route\<close>

lemma single_static_route:
  assumes "F \<noteq> []" "ms \<noteq> []"
  shows "traverse (Node [] [Node F [] None None ms sl nms] None None [] sl' nms') path =
           (if path = F then Some (Node F [] None None ms sl nms, []) else None)"
proof (cases "path = []")
  case True
  with assms show ?thesis by auto
next
  case False
  show ?thesis
  proof (cases "isPrefix F path")
    case True
    then obtain tail where p: "path = F @ tail"
      by (metis append_take_drop_id isPrefix_def)
    with assms False show ?thesis
      by (cases F; cases tail) (auto simp: isPrefix_def tryStatic_Nil_path)
  next
    case np: False
    then have "path \<noteq> F" by (auto simp: isPrefix_def)
    with np assms False show ?thesis by auto
  qed
qed

subsection \<open>The routing-priority example\<close>

text \<open>
  The scenario of section 8 of the specification: its five routes, registered in the order
  given there and in the opposite order, give the matches and parameters listed there. A
  second name for the routes of one node, and a second catch-all name at one node, are
  refused.
\<close>

lemma routing_priority_example:
  "(case InsertAll [(''GET'', ''/:page'', 1::nat), (''GET'', ''/:year/:month/:post'', 2),
        (''GET'', ''/:year/:month'', 3), (''GET'', ''/images/*path'', 4),
        (''GET'', ''/favicon.ico'', 5)] (emptyNode []) of
      Inl e \<Rightarrow> False
    | Inr r \<Rightarrow>
        Lookup ''GET'' r ''/abc'' = Found 1 [\<lparr>Name = ''page'', Value = ''abc''\<rparr>]
        \<and> Lookup ''GET'' r ''/2014/05''
            = Found 3 [\<lparr>Name = ''year'', Value = ''2014''\<rparr>, \<lparr>Name = ''month'', Value = ''05''\<rparr>]
        \<and> Lookup ''GET'' r ''/2014/05/really-great-blog-post''
            = Found 2 [\<lparr>Name = ''year'', Value = ''2014''\<rparr>, \<lparr>Name = ''month'', Value = ''05''\<rparr>,
                       \<lparr>Name = ''post'', Value = ''really-great-blog-post''\<rparr>]
        \<and> Lookup ''GET'' r ''/images/CoolImage.gif''
            = Found 4 [\<lparr>Name = ''path'', Value = ''CoolImage.gif''\<rparr>]
        \<and> Lookup ''GET'' r ''/images/2014/05/MayImage.jpg''
            = Found 4 [\<lparr>Name = ''path'', Value = ''2014/05/MayImage.jpg''\<rparr>]
        \<and> Lookup ''GET'' r ''/favicon.ico'' = Found 5 [])
   \<and> (case InsertAll [(''GET'', ''/favicon.ico'', 5::nat), (''GET'', ''/images/*path'', 4),
        (''GET'', ''/:year/:month'', 3), (''GET'', ''/:year/:month/:post'', 2),
        (''GET'', ''/:page'', 1)] (emptyNode []) of
      Inl e \<Rightarrow> False
    | Inr r \<Rightarrow>
        Lookup ''GET'' r ''/abc'' = Found 1 [\<lparr>Name = ''page'', Value = ''abc''\<rparr>]
        \<and> Lookup ''GET'' r ''/2014/05''
            = Found 3 [\<lparr>Name = ''year'', Value = ''2014''\<rparr>, \<lparr>Name = ''month'', Value = ''05''\<rparr>]
        \<and> Lookup ''GET'' r ''/images/CoolImage.gif''
            = Found 4 [\<lparr>Name = ''path'', Value = ''CoolImage.gif''\<rparr>]
        \<and> Lookup ''GET'' r ''/favicon.ico'' = Found 5 [])
   \<and> InsertAll [(''GET'', ''/:a'', 1::nat), (''POST'', ''/:b'', 2)] (emptyNode [])
       = Inl AmbiguousWildcardName
   \<and> InsertAll [(''GET'', ''/x/*a'', 1::nat), (''GET'', ''/x/*b'', 2)] (emptyNode [])
       = Inl SecondCatchAll"
  by code_simp

subsection \<open>The claims about the routing tree\<close>

text \<open>
  C3. First part, for every tree \<open>r\<close> and every request path \<open>p\<close>: when the traversal of
  \<open>p\<close> from the root stands at a node, at any depth, with the remainder \<open>q\<close> and the values
  \<open>vs\<close> captured on the way, and a static child of that node, with its subtree, matches
  the whole of \<open>q\<close>, then the match of \<open>p\<close> is that match, whatever the wildcard and
  catch-all children of the node are, and \<open>Lookup\<close> answers from the method table of the
  node the static branch reached (its handler for the method, or method-not-allowed), never
  from the wildcard or the catch-all sibling. Second part: when a list of routes, with any
  wildcard and catch-all names, has been registered in any order on any tree, and one of
  them is a pattern that ends with a static segment \<open>s\<close> after the segments \<open>pre\<close>, then the
  node \<open>N\<close> that \<open>pre\<close> leads to exists, and every request path whose traversal stands at
  \<open>N\<close> with the remainder \<open>s\<close> gets, for the route's method, that route's handler, with the
  captured values bound to the names the pattern declares. Third part, the second one for a
  pattern without wildcard: \<open>Lookup\<close> of the pattern's own path for its method returns its
  handler with no parameter, whatever routes were registered before or after it.
\<close>

theorem static_child_wins:
  "(position r p trail = Some (Node frag sts wc ca ms sl nms, q, vs)
        \<and> tryStatic sts q = Some (t, ws) \<longrightarrow>
      search r p = Some (t, bindParams (paramNames t) (vs @ ws))
      \<and> Lookup meth r p =
          (case map_of (methodTable t) meth of
             Some h' \<Rightarrow> Found h' (bindParams (paramNames t) (vs @ ws))
           | None \<Rightarrow> MethodNotAllowed (map fst (methodTable t))))
   \<and> (InsertAll rs t0 = Inr r' \<and> (meth, pattern, h) \<in> set rs
        \<and> segments True (stripSlash pattern) = Inr (pre @ [Static s]) \<longrightarrow>
      (\<exists>N. nodeAt r' pre = Some N
         \<and> (\<forall>p' trail' vs'. position r' p' trail' = Some (N, s, vs') \<longrightarrow>
               Lookup meth r' p' = Found h (bindParams (wildcardNames pre) vs'))))
   \<and> (InsertAll rs t0 = Inr r' \<and> (meth, pattern, h) \<in> set rs
        \<and> segments True (stripSlash pattern) = Inr [Static s] \<longrightarrow>
      Lookup meth r' s = Found h [])"
proof (intro conjI impI)
  assume a: "position r p trail = Some (Node frag sts wc ca ms sl nms, q, vs)
        \<and> tryStatic sts q = Some (t, ws)"
  then have pos: "position r p trail = Some (Node frag sts wc ca ms sl nms, q, vs)"
    and st: "tryStatic sts q = Some (t, ws)" by simp_all
  from st have "q \<noteq> []" using tryStatic_Nil_path [of sts] by auto
  then have "\<not> (q = [] \<and> ms \<noteq> [])" by simp
  with st have "traverse (Node frag sts wc ca ms sl nms) q = Some (t, ws)"
    by (rule traverse_static)
  with pos have "traverse r p = Some (t, vs @ ws)" by (rule position_traverse)
  then show 1: "search r p = Some (t, bindParams (paramNames t) (vs @ ws))"
    by (simp add: search_def)
  then show "Lookup meth r p =
          (case map_of (methodTable t) meth of
             Some h' \<Rightarrow> Found h' (bindParams (paramNames t) (vs @ ws))
           | None \<Rightarrow> MethodNotAllowed (map fst (methodTable t)))"
    by (simp add: Lookup_def)
next
  assume "InsertAll rs t0 = Inr r' \<and> (meth, pattern, h) \<in> set rs
        \<and> segments True (stripSlash pattern) = Inr (pre @ [Static s])"
  then show "\<exists>N. nodeAt r' pre = Some N
         \<and> (\<forall>p' trail' vs'. position r' p' trail' = Some (N, s, vs') \<longrightarrow>
               Lookup meth r' p' = Found h (bindParams (wildcardNames pre) vs'))"
    using static_route_wins_in_any_order [where rs = rs and ?t0.0 = t0 and r = r' and meth = meth
        and pattern = pattern and h = h and pre = pre and s = s]
    by blast
next
  assume "InsertAll rs t0 = Inr r' \<and> (meth, pattern, h) \<in> set rs
        \<and> segments True (stripSlash pattern) = Inr [Static s]"
  then have "\<exists>N. nodeAt r' [] = Some N
         \<and> (\<forall>p' trail' vs'. position r' p' trail' = Some (N, s, vs') \<longrightarrow>
               Lookup meth r' p' = Found h (bindParams (wildcardNames []) vs'))"
    using static_route_wins_in_any_order [where rs = rs and ?t0.0 = t0 and r = r' and meth = meth
        and pattern = pattern and h = h and pre = "[]" and s = s]
    by simp
  then have every: "\<forall>p' trail' vs'. position r' p' trail' = Some (r', s, vs') \<longrightarrow>
               Lookup meth r' p' = Found h (bindParams [] vs')"
    by simp
  have "position r' s [] = Some (r', s, [])" by simp
  with every have "Lookup meth r' s = Found h (bindParams [] [])" by blast
  then show "Lookup meth r' s = Found h []" by (simp add: bindParams_def)
qed

theorem static_child_wins_witness:
  "InsertAll [(''GET'', ''/:page'', 1::nat), (''GET'', ''/:year/:month/:post'', 2),
        (''GET'', ''/:year/:month'', 3), (''GET'', ''/images/*path'', 4),
        (''GET'', ''/favicon.ico'', 5)] (emptyNode [])
     = Inr (Node []
         [Node ''/''
            [Node ''images/'' [] None
               (Some (''path'', Node [] [] None None [(''GET'', 4)] False [''path''])) [] False [],
             Node ''favicon.ico'' [] None None [(''GET'', 5)] False []]
            (Some (Node []
               [Node ''/'' []
                  (Some (Node []
                     [Node ''/'' []
                        (Some (Node [] [] None None [(''GET'', 2)] False [''year'', ''month'', ''post'']))
                        None [] False []]
                     None None [(''GET'', 3)] False [''year'', ''month'']))
                  None [] False []]
               None None [(''GET'', 1)] False [''page'']))
            None [] False []]
         None None [] False [])
   \<and> Lookup ''GET''
        (Node []
         [Node ''/''
            [Node ''images/'' [] None
               (Some (''path'', Node [] [] None None [(''GET'', 4::nat)] False [''path''])) [] False [],
             Node ''favicon.ico'' [] None None [(''GET'', 5)] False []]
            (Some (Node []
               [Node ''/'' []
                  (Some (Node []
                     [Node ''/'' []
                        (Some (Node [] [] None None [(''GET'', 2)] False [''year'', ''month'', ''post'']))
                        None [] False []]
                     None None [(''GET'', 3)] False [''year'', ''month'']))
                  None [] False []]
               None None [(''GET'', 1)] False [''page'']))
            None [] False []]
         None None [] False [])
        ''/favicon.ico'' = Found 5 []
   \<and> InsertAll [(''GET'', ''/:year/:month'', 1::nat), (''GET'', ''/:year/archive'', 2)] (emptyNode [])
     = Inr (Node []
         [Node ''/'' []
            (Some (Node []
               [Node ''/'' [Node ''archive'' [] None None [(''GET'', 2)] False [''year'']]
                  (Some (Node [] [] None None [(''GET'', 1)] False [''year'', ''month'']))
                  None [] False []]
               None None [] False []))
            None [] False []]
         None None [] False [])
   \<and> position
        (Node []
         [Node ''/'' []
            (Some (Node []
               [Node ''/'' [Node ''archive'' [] None None [(''GET'', 2::nat)] False [''year'']]
                  (Some (Node [] [] None None [(''GET'', 1)] False [''year'', ''month'']))
                  None [] False []]
               None None [] False []))
            None [] False []]
         None None [] False [])
        ''/2014/archive'' [ViaStatic, ViaWildcard, ViaStatic]
     = Some (Node ''/'' [Node ''archive'' [] None None [(''GET'', 2)] False [''year'']]
               (Some (Node [] [] None None [(''GET'', 1)] False [''year'', ''month'']))
               None [] False [],
             ''archive'', [''2014''])
   \<and> Lookup ''GET''
        (Node []
         [Node ''/'' []
            (Some (Node []
               [Node ''/'' [Node ''archive'' [] None None [(''GET'', 2::nat)] False [''year'']]
                  (Some (Node [] [] None None [(''GET'', 1)] False [''year'', ''month'']))
                  None [] False []]
               None None [] False []))
            None [] False []]
         None None [] False [])
        ''/2014/archive'' = Found 2 [\<lparr>Name = ''year'', Value = ''2014''\<rparr>]"
proof -
  let ?rs8 = "[(''GET'', ''/:page'', 1::nat), (''GET'', ''/:year/:month/:post'', 2),
        (''GET'', ''/:year/:month'', 3), (''GET'', ''/images/*path'', 4),
        (''GET'', ''/favicon.ico'', 5)]"
  let ?images = "Node ''images/'' [] None
               (Some (''path'', Node [] [] None None [(''GET'', 4::nat)] False [''path''])) [] False []"
  let ?favicon = "Node ''favicon.ico'' [] None None [(''GET'', 5::nat)] False []"
  let ?page = "Node []
               [Node ''/'' []
                  (Some (Node []
                     [Node ''/'' []
                        (Some (Node [] [] None None [(''GET'', 2::nat)] False [''year'', ''month'', ''post'']))
                        None [] False []]
                     None None [(''GET'', 3)] False [''year'', ''month'']))
                  None [] False []]
               None None [(''GET'', 1)] False [''page'']"
  let ?t8 = "Node [] [Node ''/'' [?images, ?favicon] (Some ?page) None [] False []] None None [] False []"
  let ?rs2 = "[(''GET'', ''/:year/:month'', 1::nat), (''GET'', ''/:year/archive'', 2)]"
  let ?archive = "Node ''archive'' [] None None [(''GET'', 2::nat)] False [''year'']"
  let ?month = "Node [] [] None None [(''GET'', 1::nat)] False [''year'', ''month'']"
  let ?year = "Node [] [Node ''/'' [?archive] (Some ?month) None [] False []] None None [] False []"
  let ?t2 = "Node [] [Node ''/'' [] (Some ?year) None [] False []] None None [] False []"
  have ins8: "InsertAll ?rs8 (emptyNode []) = Inr ?t8"
    by code_simp
  have seg8: "segments True (stripSlash ''/favicon.ico'') = Inr ([] @ [Static ''/favicon.ico''])"
    by code_simp
  have seg8': "segments True (stripSlash ''/favicon.ico'') = Inr [Static ''/favicon.ico'']"
    by code_simp
  have pos8: "position ?t8 ''/favicon.ico'' [ViaStatic]
      = Some (Node ''/'' [?images, ?favicon] (Some ?page) None [] False [], ''favicon.ico'', [])"
    by code_simp
  have try8: "tryStatic [?images, ?favicon] ''favicon.ico'' = Some (?favicon, [])"
    by code_simp
  have ins2: "InsertAll ?rs2 (emptyNode []) = Inr ?t2"
    by code_simp
  have seg2: "segments True (stripSlash ''/:year/archive'')
      = Inr ([Static ''/'', Wildcard ''year''] @ [Static ''/archive''])"
    by code_simp
  have at2: "nodeAt ?t2 [Static ''/'', Wildcard ''year''] = Some ?year"
    by code_simp
  have pos2: "position ?t2 ''/2014/archive'' [ViaStatic, ViaWildcard, ViaStatic]
      = Some (Node ''/'' [?archive] (Some ?month) None [] False [], ''archive'', [''2014''])"
    by code_simp
  have try2: "tryStatic [?archive] ''archive'' = Some (?archive, [])"
    by code_simp
  have pos2': "position ?t2 ''/2014/archive'' [ViaStatic, ViaWildcard]
      = Some (?year, ''/archive'', [''2014''])"
    by code_simp
  note A = static_child_wins
      [where r = ?t8 and p = "''/favicon.ico''" and trail = "[ViaStatic]" and frag = "''/''"
         and sts = "[?images, ?favicon]" and wc = "Some ?page" and ca = None and ms = "[]"
         and sl = False and nms = "[]" and q = "''favicon.ico''" and vs = "[]" and t = ?favicon
         and ws = "[]" and meth = "''GET''" and rs = ?rs8 and ?t0.0 = "emptyNode []" and r' = ?t8
         and pattern = "''/favicon.ico''" and h = 5 and pre = "[]" and s = "''/favicon.ico''"]
  note B = static_child_wins
      [where r = ?t2 and p = "''/2014/archive''" and trail = "[ViaStatic, ViaWildcard, ViaStatic]"
         and frag = "''/''" and sts = "[?archive]" and wc = "Some ?month" and ca = None and ms = "[]"
         and sl = False and nms = "[]" and q = "''archive''" and vs = "[''2014'']" and t = ?archive
         and ws = "[]" and meth = "''GET''" and rs = ?rs2 and ?t0.0 = "emptyNode []" and r' = ?t2
         and pattern = "''/:year/archive''" and h = 2 and pre = "[Static ''/'', Wildcard ''year'']"
         and s = "''/archive''"]
  have mem8: "(''GET'', ''/favicon.ico'', 5) \<in> set ?rs8" by simp
  have mem2: "(''GET'', ''/:year/archive'', 2) \<in> set ?rs2" by simp
  from A pos8 try8
  have s8: "search ?t8 ''/favicon.ico''
      = Some (?favicon, bindParams (paramNames ?favicon) ([] @ []))"
    by blast
  from A ins8 mem8 seg8
  have "\<exists>N. nodeAt ?t8 [] = Some N
      \<and> (\<forall>p' trail' vs'. position ?t8 p' trail' = Some (N, ''/favicon.ico'', vs') \<longrightarrow>
            Lookup ''GET'' ?t8 p' = Found 5 (bindParams (wildcardNames []) vs'))"
    by blast
  from A ins8 mem8 seg8' have l8: "Lookup ''GET'' ?t8 ''/favicon.ico'' = Found 5 []"
    by blast
  from B pos2 try2
  have s2: "search ?t2 ''/2014/archive''
      = Some (?archive, bindParams (paramNames ?archive) ([''2014''] @ []))"
    by blast
  from B ins2 mem2 seg2
  have "\<exists>N. nodeAt ?t2 [Static ''/'', Wildcard ''year''] = Some N
      \<and> (\<forall>p' trail' vs'. position ?t2 p' trail' = Some (N, ''/archive'', vs') \<longrightarrow>
        Lookup ''GET'' ?t2 p' = Found 2 (bindParams (wildcardNames [Static ''/'', Wildcard ''year'']) vs'))"
    by blast
  then obtain N where N: "nodeAt ?t2 [Static ''/'', Wildcard ''year''] = Some N"
    and every: "\<forall>p' trail' vs'. position ?t2 p' trail' = Some (N, ''/archive'', vs') \<longrightarrow>
        Lookup ''GET'' ?t2 p' = Found 2 (bindParams (wildcardNames [Static ''/'', Wildcard ''year'']) vs')"
    by blast
  from N at2 have "N = ?year" by simp
  with every pos2'
  have "Lookup ''GET'' ?t2 ''/2014/archive''
      = Found 2 (bindParams (wildcardNames [Static ''/'', Wildcard ''year'']) [''2014''])"
    by blast
  then have l2: "Lookup ''GET'' ?t2 ''/2014/archive'' = Found 2 [\<lparr>Name = ''year'', Value = ''2014''\<rparr>]"
    by (simp add: bindParams_def)
  from ins8 l8 ins2 pos2 l2 show ?thesis by blast
qed

text \<open>
  C4. With an empty remainder at a node, the search matches the node itself if it has a
  route and nothing otherwise, so never its catch-all child. In every tree, no match binds
  an empty parameter value, and a catch-all match binds the whole remainder. For the
  pattern \<open>/images/*path\<close> alone, neither \<open>/images/\<close> nor \<open>/images\<close> is matched, for any
  method, while \<open>/images/a.gif\<close> is.
\<close>

theorem catchall_rejects_empty_remainder:
  "search (Node frag sts wc ca ms sl nms) [] =
     (if ms \<noteq> [] then Some (Node frag sts wc ca ms sl nms, []) else None)
   \<and> (search n path = Some (t, ps) \<longrightarrow> (\<forall>q \<in> set ps. Value q \<noteq> []))
   \<and> (case Insert ''GET'' ''/images/*path'' h (emptyNode []) of
        Inl e \<Rightarrow> False
      | Inr r \<Rightarrow> Lookup meth r ''/images/'' = NotFound
               \<and> Lookup meth r ''/images'' = NotFound
               \<and> Lookup ''GET'' r ''/images/a.gif'' = Found h [\<lparr>Name = ''path'', Value = ''a.gif''\<rparr>])"
proof -
  have 1: "search (Node frag sts wc ca ms sl nms) [] =
     (if ms \<noteq> [] then Some (Node frag sts wc ca ms sl nms, []) else None)"
    by (simp add: search_def bindParams_def tryStatic_Nil_path split: option.splits)
  have 2: "search n path = Some (t, ps) \<longrightarrow> (\<forall>q \<in> set ps. Value q \<noteq> [])"
    using search_values_nonempty [of n path t ps] by blast
  have ins: "Insert ''GET'' ''/images/*path'' h (emptyNode []) =
      Inr (Node [] [Node ''/images/'' [] None
                      (Some (''path'', Node [] [] None None [(''GET'', h)] False [''path''])) [] False []]
             None None [] False [])"
    by (simp add: Insert_def stripSlash_def endsWithSlash_def pushStatic_def
        emptyNode_def setRoute_def)
  have dec: "UnescapeParam ''a.gif'' = ''a.gif''"
    by code_simp
  have 3: "(case Insert ''GET'' ''/images/*path'' h (emptyNode []) of
        Inl e \<Rightarrow> False
      | Inr r \<Rightarrow> Lookup meth r ''/images/'' = NotFound
               \<and> Lookup meth r ''/images'' = NotFound
               \<and> Lookup ''GET'' r ''/images/a.gif'' = Found h [\<lparr>Name = ''path'', Value = ''a.gif''\<rparr>])"
    unfolding ins by (simp add: Lookup_def search_def bindParams_def isPrefix_def dec)
  from 1 2 3 show ?thesis by blast
qed

theorem catchall_rejects_empty_remainder_witness:
  "search (Node [] [Node ''/images/'' [] None
       (Some (''path'', Node [] [] None None [(''GET'', 1::nat)] False [''path''])) [] False []]
       None None [] False [])
     ''/images/a%2Fb''
     = Some (Node [] [] None None [(''GET'', 1)] False [''path''], [\<lparr>Name = ''path'', Value = ''a/b''\<rparr>])
   \<and> Value \<lparr>Name = ''path'', Value = ''a/b''\<rparr> \<noteq> []
   \<and> search (Node ''/images/'' [] None
       (Some (''path'', Node [] [] None None [(''GET'', 1::nat)] False [''path''])) [] False []) [] = None"
proof -
  have dec: "UnescapeParam ''a%2Fb'' = ''a/b''"
    by code_simp
  have s: "search (Node [] [Node ''/images/'' [] None
       (Some (''path'', Node [] [] None None [(''GET'', 1::nat)] False [''path''])) [] False []]
       None None [] False [])
     ''/images/a%2Fb''
     = Some (Node [] [] None None [(''GET'', 1)] False [''path''], [\<lparr>Name = ''path'', Value = ''a/b''\<rparr>])"
    by (simp add: search_def bindParams_def isPrefix_def dec)
  note T = catchall_rejects_empty_remainder
      [where frag = "''/images/''" and sts = "[]" and wc = None
         and ca = "Some (''path'', Node [] [] None None [(''GET'', 1::nat)] False [''path''])"
         and ms = "[]" and sl = False and nms = "[]"
         and n = "Node [] [Node ''/images/'' [] None
             (Some (''path'', Node [] [] None None [(''GET'', 1::nat)] False [''path''])) [] False []]
             None None [] False []"
         and path = "''/images/a%2Fb''" and t = "Node [] [] None None [(''GET'', 1)] False [''path'']"
         and ps = "[\<lparr>Name = ''path'', Value = ''a/b''\<rparr>]" and h = 1 and meth = "''GET''"]
  from T s have "\<forall>q \<in> set [\<lparr>Name = ''path'', Value = ''a/b''\<rparr>]. Value q \<noteq> []"
    by blast
  then have v: "Value \<lparr>Name = ''path'', Value = ''a/b''\<rparr> \<noteq> []" by simp
  from T have "search (Node ''/images/'' [] None
       (Some (''path'', Node [] [] None None [(''GET'', 1::nat)] False [''path''])) [] False []) []
      = (if ([] :: (string \<times> nat) list) \<noteq> []
         then Some (Node ''/images/'' [] None
           (Some (''path'', Node [] [] None None [(''GET'', 1::nat)] False [''path''])) [] False [], [])
         else None)"
    by blast
  then have e: "search (Node ''/images/'' [] None
       (Some (''path'', Node [] [] None None [(''GET'', 1::nat)] False [''path''])) [] False []) [] = None"
    by simp
  from s v e show ?thesis by blast
qed

text \<open>
  C5. With the raw path as the source, the pattern \<open>/post/:post\<close> matches the request path
  \<open>/post/abc%2Fdef\<close> and binds \<open>post\<close> to \<open>abc/def\<close>: the encoded slash does not end the
  wildcard's segment and is decoded in the value. (With the decoded path as the source the
  same request is not found, as the README says: the slash then separates two segments.)
\<close>

theorem percent_encoded_slash:
  "Insert ''GET'' ''/post/:post'' h (emptyNode []) =
     Inr (Node [] [Node ''/post/'' []
                     (Some (Node [] [] None None [(''GET'', h)] False [''post''])) None [] False []]
            None None [] False [])
   \<and> (case Insert ''GET'' ''/post/:post'' h (emptyNode []) of
        Inl e \<Rightarrow> False
      | Inr r \<Rightarrow> Lookup ''GET'' r (sourcePath RawURI ''/post/abc%2Fdef'')
                  = Found h [\<lparr>Name = ''post'', Value = ''abc/def''\<rparr>]
               \<and> Lookup ''GET'' r (sourcePath DecodedPath ''/post/abc%2Fdef'') = NotFound)"
proof -
  have dec: "UnescapeParam ''abc%2Fdef'' = ''abc/def''"
    by code_simp
  have dec': "UnescapeParam ''/post/abc%2Fdef'' = ''/post/abc/def''"
    by code_simp
  have unchanged: "UnescapeParam ''abc'' = ''abc''"
    by code_simp
  have ins: "Insert ''GET'' ''/post/:post'' h (emptyNode []) =
     Inr (Node [] [Node ''/post/'' []
                     (Some (Node [] [] None None [(''GET'', h)] False [''post''])) None [] False []]
            None None [] False [])"
    by (simp add: Insert_def stripSlash_def endsWithSlash_def pushStatic_def
        emptyNode_def setRoute_def)
  show ?thesis
    unfolding ins
    by (simp add: Lookup_def search_def bindParams_def sourcePath_def isPrefix_def dec dec' unchanged)
qed

text \<open>
  C6. The pattern \<open>/foo/\*starToken\<close> (the backslash is the byte \<open>0x5C\<close>) registers a static
  route: in the tree that holds it alone, the request path \<open>/foo/*starToken\<close> gets its
  handler with no parameter, and every other request path is not found.
\<close>

theorem escaped_star_is_literal:
  "\<exists>r. Insert ''GET'' (''/foo/'' @ CHR 0x5C # ''*starToken'') h (emptyNode []) = Inr r
      \<and> (\<forall>path. Lookup ''GET'' r path = (if path = ''/foo/*starToken'' then Found h [] else NotFound))"
proof -
  let ?r = "Node [] [Node ''/foo/*starToken'' [] None None [(''GET'', h)] False []] None None [] False []"
  have 1: "Insert ''GET'' (''/foo/'' @ CHR 0x5C # ''*starToken'') h (emptyNode []) = Inr ?r"
    by (simp add: Insert_def stripSlash_def endsWithSlash_def pushStatic_def
        emptyNode_def setRoute_def)
  have 2: "Lookup ''GET'' ?r path = (if path = ''/foo/*starToken'' then Found h [] else NotFound)" for path
    unfolding Lookup_def search_def
    by (subst single_static_route) (simp_all add: bindParams_def)
  from 1 2 show ?thesis by blast
qed

text \<open>
  C7. Let the node that terminates pattern \<open>p1\<close> have a route already, so that its flag has
  been set by the first registration there. Then registering, for a method the node does
  not have yet, any pattern \<open>p2\<close> that is \<open>p1\<close> with or without the trailing slash succeeds,
  reaches that node, adds the route to its method table and leaves its trailing-slash flag
  as it was, whatever the slash presence of \<open>p2\<close> is.
\<close>

theorem later_insertion_keeps_slash_flag:
  assumes "patternNode t p1 = Some x" and "methodTable x \<noteq> []"
    and "stripSlash p2 = stripSlash p1" and "meth \<notin> fst ` set (methodTable x)"
  shows "\<exists>t' x'. Insert meth p2 handler t = Inr t'
           \<and> patternNode t' p1 = Some x'
           \<and> trailingSlash x' = trailingSlash x
           \<and> methodTable x' = methodTable x @ [(meth, handler)]"
proof -
  from assms(1) obtain segs where segs: "segments True (stripSlash p1) = Inr segs"
    and at: "nodeAt t segs = Some x"
    and nms: "\<not> (methodTable x \<noteq> [] \<and> paramNames x \<noteq> wildcardNames segs)"
    by (auto simp: patternNode_def split: sum.splits option.splits if_splits)
  with assms(2) have names: "paramNames x = wildcardNames segs" by simp
  define x' where "x' = Node (fragment x) (staticChildren x) (wildcardChild x) (catchAllChild x)
      (methodTable x @ [(meth, handler)]) (trailingSlash x) (wildcardNames segs)"
  have set: "setRoute meth handler (endsWithSlash p2) (wildcardNames segs) x = Inr x'"
    using assms(2,4) names by (simp add: setRoute_def x'_def)
  have "\<exists>t'. addPath segs (setRoute meth handler (endsWithSlash p2) (wildcardNames segs)) t = Inr t'
          \<and> nodeAt t' segs = Some x'"
    using at set by (intro addPath_at_existing_node) (auto dest: setRoute_result)
  then obtain t' where
    t': "addPath segs (setRoute meth handler (endsWithSlash p2) (wildcardNames segs)) t = Inr t'"
    and at': "nodeAt t' segs = Some x'" by blast
  have "Insert meth p2 handler t = Inr t'"
    using segs t' assms(3) by (simp add: Insert_def)
  moreover have "patternNode t' p1 = Some x'"
    using segs at' by (simp add: patternNode_def x'_def)
  moreover have "trailingSlash x' = trailingSlash x" "methodTable x' = methodTable x @ [(meth, handler)]"
    by (simp_all add: x'_def)
  ultimately show ?thesis by blast
qed

theorem later_insertion_keeps_slash_flag_witness:
  "(\<exists>t' x'. Insert ''POST'' ''/posts'' (2::nat)
        (Node [] [Node ''/posts'' [] None None [(''GET'', 1)] True []] None None [] False []) = Inr t'
      \<and> patternNode t' ''/posts/'' = Some x'
      \<and> trailingSlash x' = True
      \<and> methodTable x' = [(''GET'', 1), (''POST'', 2)])
   \<and> (\<exists>t' x'. Insert ''POST'' ''/posts/'' (2::nat)
        (Node [] [Node ''/posts'' [] None None [(''GET'', 1)] False []] None None [] False []) = Inr t'
      \<and> patternNode t' ''/posts'' = Some x'
      \<and> trailingSlash x' = False
      \<and> methodTable x' = [(''GET'', 1), (''POST'', 2)])"
proof -
  have a: "patternNode (Node [] [Node ''/posts'' [] None None [(''GET'', 1::nat)] True []] None None [] False [])
       ''/posts/'' = Some (Node ''/posts'' [] None None [(''GET'', 1)] True [])"
    by (simp add: patternNode_def stripSlash_def endsWithSlash_def pushStatic_def)
  have b: "patternNode (Node [] [Node ''/posts'' [] None None [(''GET'', 1::nat)] False []] None None [] False [])
       ''/posts'' = Some (Node ''/posts'' [] None None [(''GET'', 1)] False [])"
    by (simp add: patternNode_def stripSlash_def endsWithSlash_def pushStatic_def)
  have c: "stripSlash ''/posts'' = stripSlash ''/posts/''"
    by (simp add: stripSlash_def endsWithSlash_def)
  show ?thesis
    using later_insertion_keeps_slash_flag [OF a _ c, where meth = "''POST''" and handler = 2]
      later_insertion_keeps_slash_flag [OF b _ c [symmetric], where meth = "''POST''" and handler = 2]
    by simp
qed

end
